theory Spec2Isabelle
  imports Complex_Main "HOL-Library.AList"
begin

section \<open>StarGazer serial driver: framing, decoding, resolving, commands\<close>

text \<open>
  A shallow embedding of \<^verbatim>\<open>src/stargazer/stargazer.py\<close>. Python 2 byte strings are
  \<^typ>\<open>string\<close>, exceptions are values of \<open>py_error\<close>, dictionaries are association
  lists, floating-point numbers are reals, and the serial port is the sequence of
  results its \<^verbatim>\<open>read\<close> calls return. The reader thread is modelled by the loop it
  runs on the reads it makes; its interleaving with other threads is not modelled.
\<close>

section \<open>The model\<close>

subsection \<open>Protocol characters\<close>

definition STX :: char where
  "STX = CHR ''~''"

definition ETX :: char where
  "ETX = CHR 0x60"

definition DELIM :: char where
  "DELIM = CHR ''|''"

definition CMD :: char where
  "CMD = CHR ''#''"

definition RESPONSE :: char where
  "RESPONSE = CHR ''!''"

definition RESULT :: char where
  "RESULT = CHR ''^''"

text \<open>The line feed, the one character that \<^verbatim>\<open>.\<close> of a Python regular expression
  (compiled without \<^verbatim>\<open>DOTALL\<close>) does not match.\<close>

definition NL :: char where
  "NL = CHR 0x0A"

subsection \<open>The frame matcher\<close>

text \<open>
  \<^verbatim>\<open>pattern = '(?<=' + STX + ').+?' + ETX\<close>, used through \<^verbatim>\<open>matcher.findall\<close>.
  A match may start at any position whose preceding character is \<open>STX\<close> (the
  look-behind); it takes one character other than the line feed, whatever it is, and
  then as few further such characters as possible up to and including an \<open>ETX\<close>.

  \<open>lazy_rest cs\<close> is the lazy continuation after that first character: the shortest
  prefix of \<open>cs\<close> that ends with \<open>ETX\<close> and has no line feed before it, together with
  the text after it.
\<close>

fun lazy_rest :: "string \<Rightarrow> (string \<times> string) option" where
  "lazy_rest [] = None"
| "lazy_rest (c # cs) =
     (if c = ETX then Some ([c], cs)
      else if c = NL then None
      else (case lazy_rest cs of None \<Rightarrow> None | Some (m, r) \<Rightarrow> Some (c # m, r)))"

text \<open>\<open>match_at s\<close>: the match of \<^verbatim>\<open>.+?`\<close> anchored at the head of \<open>s\<close>, and the rest.\<close>

fun match_at :: "string \<Rightarrow> (string \<times> string) option" where
  "match_at [] = None"
| "match_at (c # cs) =
     (if c = NL then None
      else (case lazy_rest cs of None \<Rightarrow> None | Some (m, r) \<Rightarrow> Some (c # m, r)))"

lemma lazy_rest_length: "lazy_rest cs = Some (m, r) \<Longrightarrow> length r < length cs"
  by (induction cs arbitrary: m r) (auto split: if_splits option.splits)

lemma match_at_length: "match_at cs = Some (m, r) \<Longrightarrow> length r < length cs"
  by (cases cs) (auto split: if_splits option.splits dest: lazy_rest_length)

text \<open>
  \<^verbatim>\<open>findall\<close> scans left to right. \<open>prev\<close> is the character before the current
  position (\<open>None\<close> at the start of the buffer). After a match the scan resumes
  behind it, where the preceding character is the \<open>ETX\<close> that closed the match; where
  no match starts, it moves one character on.
\<close>

function findall_from :: "char option \<Rightarrow> string \<Rightarrow> string list" where
  "findall_from prev [] = []"
| "findall_from prev (c # cs) =
     (if prev = Some STX then
        (case match_at (c # cs) of
           Some (m, r) \<Rightarrow> m # findall_from (Some ETX) r
         | None \<Rightarrow> findall_from (Some c) cs)
      else findall_from (Some c) cs)"
  by pat_completeness auto

termination
  by (relation "measure (\<lambda>(p, s). length s)")
     (auto simp del: match_at.simps dest: match_at_length)

definition findall :: "string \<Rightarrow> string list" where
  "findall message_buffer = findall_from None message_buffer"

subsection \<open>The frame extractor of \<^verbatim>\<open>process_buffer\<close>\<close>

text \<open>
  \<^verbatim>\<open>for candidate in matcher.findall(message_buffer): process_raw_pose(candidate[:-1])\<close>:
  \<open>payloads\<close> is the list of strings handed to the decoder, in order.
\<close>

definition payloads :: "string \<Rightarrow> string list" where
  "payloads message_buffer = map butlast (findall message_buffer)"

text \<open>\<^verbatim>\<open>str.rindex\<close>, used only where the character occurs.\<close>

definition rindex :: "string \<Rightarrow> char \<Rightarrow> nat" where
  "rindex s c = length s - Suc (length (takeWhile (\<lambda>x. x \<noteq> c) (rev s)))"

text \<open>The value \<^verbatim>\<open>process_buffer\<close> returns: the new message buffer.\<close>

definition buffer_rest :: "string \<Rightarrow> string" where
  "buffer_rest message_buffer =
     (if ETX \<in> set message_buffer
      then drop (rindex message_buffer ETX + 1) message_buffer
      else message_buffer)"

text \<open>
  The extractor as the read loop drives it:
  \<^verbatim>\<open>message_buffer += read(...); message_buffer = process_buffer(message_buffer)\<close>,
  once per chunk, collecting the payloads of every pass.
\<close>

fun feed :: "string \<Rightarrow> string list \<Rightarrow> string list" where
  "feed message_buffer [] = []"
| "feed message_buffer (chunk # chunks) =
     payloads (message_buffer @ chunk) @ feed (buffer_rest (message_buffer @ chunk)) chunks"

subsection \<open>The extractor as the specification words it\<close>

text \<open>
  ``A complete frame is everything strictly between a START marker and the next END
  marker''; the spans are taken left to right without overlap. \<open>upto_END cs\<close> splits
  \<open>cs\<close> at its first \<open>ETX\<close>.
\<close>

fun upto_END :: "string \<Rightarrow> (string \<times> string) option" where
  "upto_END [] = None"
| "upto_END (c # cs) =
     (if c = ETX then Some ([], cs)
      else (case upto_END cs of None \<Rightarrow> None | Some (m, r) \<Rightarrow> Some (c # m, r)))"

lemma upto_END_length: "upto_END cs = Some (m, r) \<Longrightarrow> length r < length cs"
  by (induction cs arbitrary: m r) (auto split: if_splits option.splits)

function spec_spans :: "string \<Rightarrow> string list" where
  "spec_spans [] = []"
| "spec_spans (c # cs) =
     (if c = STX then
        (case upto_END cs of Some (m, r) \<Rightarrow> m # spec_spans r | None \<Rightarrow> [])
      else spec_spans cs)"
  by pat_completeness auto

termination
  by (relation "measure length") (auto dest: upto_END_length)

text \<open>A START immediately followed by an END somewhere in the text.\<close>

fun has_empty_frame :: "string \<Rightarrow> bool" where
  "has_empty_frame (a # b # cs) = ((a = STX \<and> b = ETX) \<or> has_empty_frame (b # cs))"
| "has_empty_frame _ = False"

subsection \<open>Exceptions\<close>

text \<open>
  The exceptions the modelled code can raise. The command channel raises a plain
  \<^verbatim>\<open>Exception\<close> whose message is formatted from the command string, the response
  received and the response expected; it is \<open>UnexpectedResponse\<close> here, with these
  three strings.
\<close>

datatype py_error =
    ValueError
  | IndexError
  | LinAlgError
  | AssertionError
  | UnexpectedResponse string string string

subsection \<open>4x4 matrices\<close>

text \<open>
  Poses are \<^verbatim>\<open>(4,4)\<close> arrays. Floating-point numbers are modelled by the reals:
  rounding is not part of the model. A matrix is its four rows.
\<close>

type_synonym vec4 = "real \<times> real \<times> real \<times> real"

datatype mat4 = Mat4 vec4 vec4 vec4 vec4

definition tab4 :: "(nat \<Rightarrow> nat \<Rightarrow> real) \<Rightarrow> mat4" where
  "tab4 e = Mat4 (e 0 0, e 0 1, e 0 2, e 0 3) (e 1 0, e 1 1, e 1 2, e 1 3)
                 (e 2 0, e 2 1, e 2 2, e 2 3) (e 3 0, e 3 1, e 3 2, e 3 3)"

fun at4 :: "vec4 \<Rightarrow> nat \<Rightarrow> real" where
  "at4 (a, b, c, d) j = (if j = 0 then a else if j = 1 then b else if j = 2 then c else d)"

fun row4 :: "mat4 \<Rightarrow> nat \<Rightarrow> vec4" where
  "row4 (Mat4 r0 r1 r2 r3) i =
     (if i = 0 then r0 else if i = 1 then r1 else if i = 2 then r2 else r3)"

definition entry :: "mat4 \<Rightarrow> nat \<Rightarrow> nat \<Rightarrow> real" where
  "entry m i j = at4 (row4 m i) j"

definition identity :: mat4 where
  "identity = tab4 (\<lambda>i j. if i = j then 1 else 0)"

text \<open>\<^verbatim>\<open>np.dot\<close> of two \<^verbatim>\<open>(4,4)\<close> arrays: the matrix product.\<close>

definition np_dot :: "mat4 \<Rightarrow> mat4 \<Rightarrow> mat4" where
  "np_dot a b = tab4 (\<lambda>i j. entry a i 0 * entry b 0 j + entry a i 1 * entry b 1 j
                            + entry a i 2 * entry b 2 j + entry a i 3 * entry b 3 j)"

text \<open>
  \<^verbatim>\<open>np.linalg.inv\<close>: the inverse of a matrix, \<^verbatim>\<open>LinAlgError\<close> for a singular one.
  Over the reals the inverse is the transposed cofactor matrix divided by the
  determinant; the determinant is expanded along the first row.
\<close>

definition det3 :: "(nat \<Rightarrow> nat \<Rightarrow> real) \<Rightarrow> real" where
  "det3 e = e 0 0 * (e 1 1 * e 2 2 - e 1 2 * e 2 1)
          - e 0 1 * (e 1 0 * e 2 2 - e 1 2 * e 2 0)
          + e 0 2 * (e 1 0 * e 2 1 - e 1 1 * e 2 0)"

definition skip :: "nat \<Rightarrow> nat \<Rightarrow> nat" where
  "skip k i = (if i < k then i else i + 1)"

definition minor :: "mat4 \<Rightarrow> nat \<Rightarrow> nat \<Rightarrow> real" where
  "minor m i j = det3 (\<lambda>r c. entry m (skip i r) (skip j c))"

definition cofactor :: "mat4 \<Rightarrow> nat \<Rightarrow> nat \<Rightarrow> real" where
  "cofactor m i j = (- 1) ^ (i + j) * minor m i j"

definition det :: "mat4 \<Rightarrow> real" where
  "det m = entry m 0 0 * cofactor m 0 0 + entry m 0 1 * cofactor m 0 1
         + entry m 0 2 * cofactor m 0 2 + entry m 0 3 * cofactor m 0 3"

definition np_linalg_inv :: "mat4 \<Rightarrow> py_error + mat4" where
  "np_linalg_inv m =
     (if det m = 0 then Inl LinAlgError
      else Inr (tab4 (\<lambda>i j. cofactor m j i / det m)))"

text \<open>
  \<^verbatim>\<open>tf.transformations.rotation_matrix(angle, direction)\<close>: the direction is
  normalised, and the rotation about it is
  \<open>cos a I + (1 - cos a) d d\<^sup>T + sin a [d]\<^sub>x\<close>, placed in a 4x4 identity.
\<close>

definition rotation_matrix :: "real \<Rightarrow> real \<times> real \<times> real \<Rightarrow> mat4" where
  "rotation_matrix angle direction =
     (case direction of (x, y, z) \<Rightarrow>
        let n = sqrt (x * x + y * y + z * z);
            dx = x / n; dy = y / n; dz = z / n;
            sina = sin angle; cosa = cos angle
        in Mat4 (cosa + dx * dx * (1 - cosa), dx * dy * (1 - cosa) - dz * sina,
                 dx * dz * (1 - cosa) + dy * sina, 0)
                (dy * dx * (1 - cosa) + dz * sina, cosa + dy * dy * (1 - cosa),
                 dy * dz * (1 - cosa) - dx * sina, 0)
                (dz * dx * (1 - cosa) - dy * sina, dz * dy * (1 - cosa) + dx * sina,
                 cosa + dz * dz * (1 - cosa), 0)
                (0, 0, 0, 1))"

text \<open>
  \<^verbatim>\<open>T = transformations.rotation_matrix(yaw, [0,0,1]); T[0:3,3] = translation\<close>.
\<close>

definition fourdof_to_matrix :: "real \<times> real \<times> real \<Rightarrow> real \<Rightarrow> mat4" where
  "fourdof_to_matrix translation yaw =
     (case (rotation_matrix yaw (0, 0, 1), translation) of
        (Mat4 (a0, a1, a2, a3) (b0, b1, b2, b3) (c0, c1, c2, c3) r3, (x, y, z)) \<Rightarrow>
          Mat4 (a0, a1, a2, x) (b0, b1, b2, y) (c0, c1, c2, z) r3)"

text \<open>\<^verbatim>\<open>np.radians\<close>.\<close>

definition radians :: "real \<Rightarrow> real" where
  "radians deg = deg * pi / 180"

subsection \<open>Strings and numbers\<close>

text \<open>\<^verbatim>\<open>s.split(sep)\<close> for a one-character separator: always at least one field.\<close>

fun py_split :: "char \<Rightarrow> string \<Rightarrow> string list" where
  "py_split sep [] = [[]]"
| "py_split sep (c # cs) =
     (if c = sep then [] # py_split sep cs
      else (case py_split sep cs of f # fs \<Rightarrow> (c # f) # fs | [] \<Rightarrow> [[c]]))"

text \<open>\<^verbatim>\<open>np.reshape(raw_split, (-1,5))\<close>, used only on lists whose length is a multiple of 5.\<close>

fun reshape5 :: "string list \<Rightarrow> string list list" where
  "reshape5 (a # b # c # d # e # rest) = [a, b, c, d, e] # reshape5 rest"
| "reshape5 _ = []"

text \<open>
  The conversions \<^verbatim>\<open>int(s)\<close>, \<^verbatim>\<open>float(s)\<close> and \<^verbatim>\<open>ndarray.astype(float)\<close> belong to
  Python and numpy, not to the driver. The decoder is modelled for arbitrary
  conversions: the environment record below carries them, \<open>None\<close> standing for
  \<^verbatim>\<open>ValueError\<close>. For concrete frames the reference conversions \<open>dec_int\<close> and
  \<open>dec_float\<close> read the wire format, optionally signed ASCII decimals; on these
  literals Python's conversions give the same numbers. (Python accepts more, such as
  exponents or surrounding blanks; the reference conversions are used on wire-format
  literals only.)
\<close>

definition digit_val :: "char \<Rightarrow> nat option" where
  "digit_val c =
     (let n = (of_char c :: nat) in if 48 \<le> n \<and> n \<le> 57 then Some (n - 48) else None)"

fun digits_val :: "string \<Rightarrow> nat \<Rightarrow> nat option" where
  "digits_val [] acc = Some acc"
| "digits_val (c # cs) acc =
     (case digit_val c of None \<Rightarrow> None | Some d \<Rightarrow> digits_val cs (10 * acc + d))"

definition strip_sign :: "string \<Rightarrow> bool \<times> string" where
  "strip_sign s =
     (case s of
        [] \<Rightarrow> (False, [])
      | c # cs \<Rightarrow>
          if c = CHR ''-'' then (True, cs) else if c = CHR ''+'' then (False, cs) else (False, s))"

definition dec_int :: "string \<Rightarrow> int option" where
  "dec_int s =
     (case strip_sign s of (neg, r) \<Rightarrow>
        if r = [] then None
        else (case digits_val r 0 of
                None \<Rightarrow> None
              | Some n \<Rightarrow> Some (if neg then - int n else int n)))"

definition dec_float :: "string \<Rightarrow> real option" where
  "dec_float s =
     (case strip_sign s of (neg, r) \<Rightarrow>
        let ip = takeWhile (\<lambda>c. c \<noteq> CHR ''.'') r;
            fp = drop 1 (dropWhile (\<lambda>c. c \<noteq> CHR ''.'') r)
        in if ip = [] \<and> fp = [] then None
           else (case (digits_val ip 0, digits_val fp 0) of
                   (Some i, Some f) \<Rightarrow>
                     Some ((if neg then - 1 else 1) * (real i + real f / 10 ^ length fp))
                 | _ \<Rightarrow> None))"

text \<open>\<^verbatim>\<open>str(marker_id)\<close>: a string is returned as it is, an integer in decimal.\<close>

function nat_digits :: "nat \<Rightarrow> string" where
  "nat_digits n = (if n < 10 then [''0123456789'' ! n]
                   else nat_digits (n div 10) @ [''0123456789'' ! (n mod 10)])"
  by pat_completeness auto

termination
  by (relation "measure id") auto

declare nat_digits.simps [simp del]

datatype marker_id = IntId int | StrId string

fun py_str :: "marker_id \<Rightarrow> string" where
  "py_str (IntId i) = (if i < 0 then CHR ''-'' # nat_digits (nat (- i)) else nat_digits (nat i))"
| "py_str (StrId s) = s"

subsection \<open>The coordinate resolver \<^verbatim>\<open>local_to_global\<close>\<close>

text \<open>
  A dictionary is an association list with distinct keys; assignment to a key is
  \<^const>\<open>AList.update\<close>. \<open>local_poses\<close> is given in the order \<^verbatim>\<open>iteritems()\<close> yields
  it, an order Python 2 does not fix: what is proved of \<open>local_to_global\<close> is proved
  for every order. The marker map is looked up by string keys only, so it is a map
  from strings.
\<close>

fun local_to_global_loop ::
  "(string \<rightharpoonup> mat4) \<Rightarrow> (marker_id \<times> mat4) list \<Rightarrow> (string \<times> mat4) list \<Rightarrow> string set
   \<Rightarrow> py_error + ((string \<times> mat4) list \<times> string set)" where
  "local_to_global_loop marker_map [] global_poses unknown_ids =
     Inr (global_poses, unknown_ids)"
| "local_to_global_loop marker_map ((k, pose) # rest) global_poses unknown_ids =
     (let marker_id = py_str k in
      case marker_map marker_id of
        Some marker_to_map \<Rightarrow>
          (case np_linalg_inv pose of
             Inl err \<Rightarrow> Inl err
           | Inr local_to_marker \<Rightarrow>
               local_to_global_loop marker_map rest
                 (AList.update marker_id (np_dot marker_to_map local_to_marker) global_poses)
                 unknown_ids)
      | None \<Rightarrow>
          local_to_global_loop marker_map rest global_poses (insert marker_id unknown_ids))"

definition local_to_global ::
  "(string \<rightharpoonup> mat4) \<Rightarrow> (marker_id \<times> mat4) list
   \<Rightarrow> py_error + ((string \<times> mat4) list \<times> string set)" where
  "local_to_global marker_map local_poses = local_to_global_loop marker_map local_poses [] {}"

subsection \<open>The pose decoder \<^verbatim>\<open>process_raw_pose\<close>\<close>

text \<open>
  What \<^verbatim>\<open>process_raw_pose\<close> takes from outside: the three conversions, the marker
  map, and whether each callback is set.
\<close>

record env =
  py_int :: "string \<Rightarrow> int option"
  py_float :: "string \<Rightarrow> real option"
  np_float :: "string \<Rightarrow> real option"
  marker_map :: "string \<rightharpoonup> mat4"
  callback_global :: bool
  callback_local :: bool

text \<open>What the decoder and the read loop do to the outside: log lines and callbacks.\<close>

datatype event =
    LogIncorrectLength string
  | LogProcessingError py_error string
  | CallbackGlobal "(string \<times> mat4) list" "string set"
  | CallbackLocal "(marker_id \<times> mat4) list"

text \<open>The body of the loop over the rows: one marker.\<close>

fun decode_marker :: "env \<Rightarrow> string list \<Rightarrow> py_error + (int \<times> mat4)" where
  "decode_marker e [s0, s1, s2, s3, s4] =
     (case py_int e s0 of
        None \<Rightarrow> Inl ValueError
      | Some marker_id \<Rightarrow>
          (case py_float e s1 of
             None \<Rightarrow> Inl ValueError
           | Some deg \<Rightarrow>
               (case (np_float e s2, np_float e s3, np_float e s4) of
                  (Some x, Some y, Some z) \<Rightarrow>
                    (let local_angle = radians deg;
                         local_cartesian = (x * 0.01, y * 0.01, - (z * 0.01));
                         marker_to_stargazer = fourdof_to_matrix local_cartesian (- local_angle)
                     in case np_linalg_inv marker_to_stargazer of
                          Inl err \<Rightarrow> Inl err
                        | Inr pose \<Rightarrow> Inr (marker_id, pose))
                | _ \<Rightarrow> Inl ValueError)))"
| "decode_marker e _ = Inl IndexError"

fun decode_markers ::
  "env \<Rightarrow> string list list \<Rightarrow> (marker_id \<times> mat4) list
   \<Rightarrow> py_error + (marker_id \<times> mat4) list" where
  "decode_markers e [] pose_local = Inr pose_local"
| "decode_markers e (split # rows) pose_local =
     (case decode_marker e split of
        Inl err \<Rightarrow> Inl err
      | Inr (marker_id, pose) \<Rightarrow>
          decode_markers e rows (AList.update (IntId marker_id) pose pose_local))"

text \<open>The two \<^verbatim>\<open>if self._callback_...\<close> statements that end \<^verbatim>\<open>process_raw_pose\<close>.\<close>

definition run_callbacks :: "env \<Rightarrow> (marker_id \<times> mat4) list \<Rightarrow> py_error + event list" where
  "run_callbacks e pose_local =
     (case (if callback_global e
            then (case local_to_global (marker_map e) pose_local of
                    Inl err \<Rightarrow> Inl err
                  | Inr (global_pose, unknown_ids) \<Rightarrow>
                      Inr [CallbackGlobal global_pose unknown_ids])
            else Inr []) of
        Inl err \<Rightarrow> Inl err
      | Inr evs \<Rightarrow> Inr (evs @ (if callback_local e then [CallbackLocal pose_local] else [])))"

definition process_raw_pose :: "env \<Rightarrow> string \<Rightarrow> py_error + event list" where
  "process_raw_pose e message =
     (if length message < 2 then Inl IndexError
      else case py_int e [message ! 1] of
        None \<Rightarrow> Inl ValueError
      | Some marker_count \<Rightarrow>
          (let raw_split = py_split DELIM (drop 2 message) in
           if int (length raw_split) \<noteq> marker_count * 5
           then Inr [LogIncorrectLength message]
           else (case decode_markers e (reshape5 raw_split) [] of
                   Inl err \<Rightarrow> Inl err
                 | Inr pose_local \<Rightarrow> run_callbacks e pose_local)))"

subsection \<open>The read loop \<^verbatim>\<open>_read\<close>\<close>

text \<open>The \<^verbatim>\<open>for candidate in ...\<close> loop of \<^verbatim>\<open>process_buffer\<close>: an exception ends it.\<close>

fun process_frames :: "env \<Rightarrow> string list \<Rightarrow> event list \<times> py_error option" where
  "process_frames e [] = ([], None)"
| "process_frames e (message # rest) =
     (case process_raw_pose e message of
        Inl err \<Rightarrow> ([], Some err)
      | Inr evs \<Rightarrow> (case process_frames e rest of (evs', r) \<Rightarrow> (evs @ evs', r)))"

definition process_buffer :: "env \<Rightarrow> string \<Rightarrow> event list \<times> (py_error + string)" where
  "process_buffer e message_buffer =
     (case process_frames e (payloads message_buffer) of
        (evs, Some err) \<Rightarrow> (evs, Inl err)
      | (evs, None) \<Rightarrow> (evs, Inr (buffer_rest message_buffer)))"

datatype loop_exit = Stopped | Broke py_error

definition chunk_size :: nat where
  "chunk_size = 80"

text \<open>
  The \<^verbatim>\<open>while\<close> loop. The list holds what the port offers to each
  \<^verbatim>\<open>read(self._chunk_size)\<close> made before the stop flag is seen; a read returns at
  most \<open>chunk_size\<close> bytes of it. The result is the events, the message buffer at
  the exit, and how the loop was left.
\<close>

fun read_loop :: "env \<Rightarrow> string list \<Rightarrow> string \<Rightarrow> event list \<times> string \<times> loop_exit" where
  "read_loop e [] message_buffer = ([], message_buffer, Stopped)"
| "read_loop e (data # reads) message_buffer =
     (let message_buffer = message_buffer @ take chunk_size data in
      case process_buffer e message_buffer of
        (evs, Inl err) \<Rightarrow> (evs @ [LogProcessingError err message_buffer], [], Broke err)
      | (evs, Inr rest) \<Rightarrow>
          (case read_loop e reads rest of (evs', b, x) \<Rightarrow> (evs @ evs', b, x)))"

text \<open>The environment with the reference conversions.\<close>

definition dec_env :: "(string \<rightharpoonup> mat4) \<Rightarrow> bool \<Rightarrow> bool \<Rightarrow> env" where
  "dec_env mm cg cl = \<lparr>py_int = dec_int, py_float = dec_float, np_float = dec_float,
     marker_map = mm, callback_global = cg, callback_local = cl\<rparr>"

subsection \<open>The command channel \<^verbatim>\<open>_send_command\<close>\<close>

text \<open>\<^verbatim>\<open>sep.join(xs)\<close>.\<close>

fun py_join :: "string \<Rightarrow> string list \<Rightarrow> string" where
  "py_join sep [] = []"
| "py_join sep [x] = x"
| "py_join sep (x # y # ys) = x @ sep @ py_join sep (y # ys)"

text \<open>The arguments are taken in their \<^verbatim>\<open>str\<close> form, as strings.\<close>

definition command_str :: "string list \<Rightarrow> string" where
  "command_str args = STX # CMD # py_join [DELIM] args @ [ETX]"

definition response_expected :: "string list \<Rightarrow> string" where
  "response_expected args = STX # RESPONSE # py_join [DELIM] args @ [ETX]"

text \<open>\<^verbatim>\<open>s[-n:]\<close>: the last \<open>n\<close> characters, all of \<open>s\<close> when it is shorter.\<close>

definition py_suffix :: "nat \<Rightarrow> string \<Rightarrow> string" where
  "py_suffix n s = (if n = 0 then s else drop (length s - n) s)"

text \<open>
  The serial port, as one command sees it: \<open>port i\<close> is what the port has for the
  \<open>i\<close>-th call of \<^verbatim>\<open>read\<close>, which returns at most the number of bytes asked for,
  and the empty string on a timeout. \<open>port_of rs\<close> returns the results listed and
  then times out for ever.
\<close>

type_synonym port = "nat \<Rightarrow> string"

definition port_of :: "string list \<Rightarrow> port" where
  "port_of rs i = (if i < length rs then rs ! i else [])"

text \<open>
  The \<^verbatim>\<open>while\<close> loop of \<^verbatim>\<open>_send_command\<close>, from read number \<open>i\<close> on. It ends
  with a match, or with the exception at an empty read, and gives the number of
  reads made; a port that keeps sending bytes that never match keeps it running.
\<close>

partial_function (option) scan_response ::
  "port \<Rightarrow> string \<Rightarrow> string \<Rightarrow> nat \<Rightarrow> string \<Rightarrow> (py_error option \<times> nat) option" where
  "scan_response port command expected i response_actual =
     (if py_suffix (length expected) response_actual = expected then Some (None, i)
      else (let c = take 1 (port i) in
            if c \<noteq> [] then scan_response port command expected (Suc i) (response_actual @ c)
            else Some (Some (UnexpectedResponse command response_actual expected), Suc i)))"

subsection \<open>The driver object\<close>

text \<open>
  The attributes of \<^verbatim>\<open>StarGazer\<close> the modelled methods use. \<open>thread_attr\<close> is
  \<^verbatim>\<open>self._thread\<close>, a thread object or \<^verbatim>\<open>None\<close>. Two fields are not attributes:
  \<open>written\<close> collects the bytes written to the port, and \<open>readers_running\<close> counts the
  reader threads started and not joined.
\<close>

datatype thread = Thread

record driver =
  connection :: bool
  thread_attr :: "thread option"
  stopped :: bool
  written :: string
  readers_running :: nat

text \<open>\<^verbatim>\<open>threading.Thread.start()\<close> starts the thread and returns \<^verbatim>\<open>None\<close>.\<close>

definition start :: "thread \<Rightarrow> thread option" where
  "start t = None"

definition is_connected :: "driver \<Rightarrow> bool" where
  "is_connected st = connection st"

definition is_streaming :: "driver \<Rightarrow> bool" where
  "is_streaming st = (thread_attr st \<noteq> None)"

text \<open>The object after \<^verbatim>\<open>__init__\<close> and \<^verbatim>\<open>connect()\<close>.\<close>

definition connected_driver :: driver where
  "connected_driver = \<lparr>connection = True, thread_attr = None, stopped = False, written = [],
                 readers_running = 0\<rparr>"

text \<open>
  A method returns the exception it raised, if any, and the object as it is left;
  \<open>None\<close> on the outside when it does not return.
\<close>

definition send_command ::
  "port \<Rightarrow> string list \<Rightarrow> driver \<Rightarrow> (py_error option \<times> driver) option" where
  "send_command port args st =
     (let command = command_str args;
          st1 = st\<lparr>written := written st @ command\<rparr>;
          expected = response_expected args;
          response_actual = take (length expected) (port 0)
      in case scan_response port command expected 1 response_actual of
           None \<Rightarrow> None
         | Some (r, n) \<Rightarrow> Some (r, st1))"

definition set_parameter ::
  "port \<Rightarrow> string \<Rightarrow> string \<Rightarrow> driver \<Rightarrow> (py_error option \<times> driver) option" where
  "set_parameter port name val st =
     (if \<not> (is_connected st \<and> \<not> is_streaming st) then Some (Some AssertionError, st)
      else send_command port [name, val] st)"

definition start_streaming :: "port \<Rightarrow> driver \<Rightarrow> (py_error option \<times> driver) option" where
  "start_streaming port st =
     (if \<not> (is_connected st \<and> \<not> is_streaming st) then Some (Some AssertionError, st)
      else case send_command port [''CalcStart''] st of
             None \<Rightarrow> None
           | Some (Some err, st1) \<Rightarrow> Some (Some err, st1)
           | Some (None, st1) \<Rightarrow>
               Some (None, st1\<lparr>thread_attr := start Thread,
                                readers_running := Suc (readers_running st1)\<rparr>))"

definition stop_streaming :: "port \<Rightarrow> driver \<Rightarrow> (py_error option \<times> driver) option" where
  "stop_streaming port st =
     (if \<not> is_connected st then Some (Some AssertionError, st)
      else send_command port [''CalcStop'']
             (if is_streaming st then st\<lparr>stopped := True, readers_running := 0\<rparr> else st))"

subsection \<open>Notions used in the statements\<close>

text \<open>The look-behind character put back in front of the text still to be scanned.\<close>

definition behind :: "char option \<Rightarrow> string" where
  "behind p = (if p = Some STX then [STX] else [])"

text \<open>
  The homogeneous transform of the specification: rotation about the z axis by \<open>yaw\<close>,
  translation \<open>t\<close>.
\<close>

definition homogeneous :: "real \<Rightarrow> real \<times> real \<times> real \<Rightarrow> mat4" where
  "homogeneous yaw t =
     (case t of (x, y, z) \<Rightarrow>
        Mat4 (cos yaw, - sin yaw, 0, x) (sin yaw, cos yaw, 0, y) (0, 0, 1, z) (0, 0, 0, 1))"

text \<open>All five fields of a row convert.\<close>

fun row_parses :: "env \<Rightarrow> string list \<Rightarrow> bool" where
  "row_parses e [s0, s1, s2, s3, s4] =
     (py_int e s0 \<noteq> None \<and> py_float e s1 \<noteq> None
      \<and> np_float e s2 \<noteq> None \<and> np_float e s3 \<noteq> None \<and> np_float e s4 \<noteq> None)"
| "row_parses e _ = False"

text \<open>
  A number of the frame fails to convert: the marker-count character, or, the field
  count being \<open>5 * N\<close>, the marker id or a numeric field of some row.
\<close>

definition number_fails :: "env \<Rightarrow> string \<Rightarrow> bool" where
  "number_fails e message =
     (2 \<le> length message \<and>
      (case py_int e [message ! 1] of
         None \<Rightarrow> True
       | Some marker_count \<Rightarrow>
           int (length (py_split DELIM (drop 2 message))) = marker_count * 5
           \<and> (\<exists>r \<in> set (reshape5 (py_split DELIM (drop 2 message))). \<not> row_parses e r)))"

text \<open>The marker count converts and the field count differs from \<open>5 * N\<close>.\<close>

definition length_mismatch :: "env \<Rightarrow> string \<Rightarrow> bool" where
  "length_mismatch e message =
     (2 \<le> length message \<and>
      (case py_int e [message ! 1] of
         None \<Rightarrow> False
       | Some marker_count \<Rightarrow>
           int (length (py_split DELIM (drop 2 message))) \<noteq> marker_count * 5))"

text \<open>
  Several keys of \<open>local_poses\<close> may have the same string form (the integer 148 and the
  string \<^verbatim>\<open>148\<close>); the later one in iteration order then overwrites the earlier one.
  \<open>last_observation local_poses s\<close> is the transform of the last observation whose id
  has the string form \<open>s\<close>.
\<close>

definition last_observation :: "(marker_id \<times> mat4) list \<Rightarrow> string \<rightharpoonup> mat4" where
  "last_observation local_poses = map_of (rev (map (\<lambda>(k, p). (py_str k, p)) local_poses))"

text \<open>
  The bytes of \<open>k\<close> one-byte reads from read \<open>i\<close> on, and the response accumulated
  after the first read of \<open>n\<close> bytes and \<open>k\<close> one-byte reads.
\<close>

definition singles :: "port \<Rightarrow> nat \<Rightarrow> nat \<Rightarrow> string" where
  "singles port i k = concat (map (\<lambda>j. take 1 (port j)) [i..<i + k])"

definition accumulated :: "port \<Rightarrow> nat \<Rightarrow> nat \<Rightarrow> string" where
  "accumulated port n k = take n (port 0) @ singles port 1 k"

definition tail_match :: "string \<Rightarrow> string \<Rightarrow> bool" where
  "tail_match expected s = (py_suffix (length expected) s = expected)"

section \<open>Properties\<close>

subsection \<open>Facts about the protocol characters\<close>

lemma markers_distinct [simp]:
  "STX \<noteq> ETX" "ETX \<noteq> STX" "ETX \<noteq> NL" "NL \<noteq> ETX" "STX \<noteq> NL" "NL \<noteq> STX"
  by (simp_all add: STX_def ETX_def NL_def)

subsection \<open>Facts about the matcher\<close>

lemma lazy_rest_split:
  "ETX \<notin> set p \<Longrightarrow>
   lazy_rest (p @ ETX # r) = (if NL \<in> set p then None else Some (p @ [ETX], r))"
  by (induction p) auto

lemma lazy_rest_no_ETX: "ETX \<notin> set cs \<Longrightarrow> lazy_rest cs = None"
  by (induction cs) auto

lemma findall_from_no_ETX: "ETX \<notin> set v \<Longrightarrow> findall_from p v = []"
  by (induction p v rule: findall_from.induct) (auto simp: lazy_rest_no_ETX)

lemma findall_from_ETX: "findall_from (Some ETX) w = findall_from None w"
  by (cases w) auto

lemma has_empty_frame_suffix: "has_empty_frame b \<Longrightarrow> has_empty_frame (a @ b)"
proof (induction a)
  case Nil
  then show ?case by simp
next
  case (Cons x a)
  then show ?case by (cases "a @ b") auto
qed

lemma has_empty_frame_prefix: "has_empty_frame a \<Longrightarrow> has_empty_frame (a @ b)"
  by (induction a rule: has_empty_frame.induct) auto

text \<open>The first \<open>ETX\<close> of a text that ends with one.\<close>

lemma split_first_ETX:
  "\<exists>q r. u @ [ETX] = q @ ETX # r \<and> ETX \<notin> set q
         \<and> (r = [] \<or> (\<exists>r'. r = r' @ [ETX] \<and> length r' < length u))"
proof (induction u)
  case Nil
  show ?case by (rule exI[of _ "[]"]) simp
next
  case (Cons c u)
  show ?case
  proof (cases "c = ETX")
    case True
    have "(c # u) @ [ETX] = [] @ ETX # (u @ [ETX]) \<and> ETX \<notin> set []
          \<and> (\<exists>r'. u @ [ETX] = r' @ [ETX] \<and> length r' < length (c # u))"
      using True by simp
    then show ?thesis by blast
  next
    case False
    from Cons obtain q r where qr: "u @ [ETX] = q @ ETX # r" "ETX \<notin> set q"
      "r = [] \<or> (\<exists>r'. r = r' @ [ETX] \<and> length r' < length u)" by blast
    have "(c # u) @ [ETX] = (c # q) @ ETX # r \<and> ETX \<notin> set (c # q)
          \<and> (r = [] \<or> (\<exists>r'. r = r' @ [ETX] \<and> length r' < length (c # u)))"
      using qr False by auto
    then show ?thesis by blast
  qed
qed

text \<open>
  Without an empty frame, the scan of a text that continues behind an \<open>ETX\<close> is the
  scan up to that \<open>ETX\<close> followed by a fresh scan of what comes after it.
\<close>

lemma findall_from_cut:
  "\<not> has_empty_frame (u @ [ETX]) \<Longrightarrow> (p = Some STX \<longrightarrow> hd (u @ [ETX]) \<noteq> ETX) \<Longrightarrow>
   findall_from p (u @ ETX # w) = findall_from p (u @ [ETX]) @ findall_from None w"
proof (induction u arbitrary: p rule: length_induct)
  case (1 u)
  note IH = "1.IH" [rule_format]
  show ?case
  proof (cases u)
    case Nil
    with "1.prems" have "p \<noteq> Some STX" by auto
    with Nil show ?thesis by (simp add: findall_from_ETX)
  next
    case (Cons c u')
    have ne: "\<not> has_empty_frame (u' @ [ETX])"
      using "1.prems"(1) Cons has_empty_frame_suffix [of "u' @ [ETX]" "[c]"] by auto
    have hd': "Some c = Some STX \<longrightarrow> hd (u' @ [ETX]) \<noteq> ETX"
      using "1.prems"(1) Cons by (cases "u' @ [ETX]") auto
    have skip: "findall_from (Some c) (u' @ ETX # w)
                = findall_from (Some c) (u' @ [ETX]) @ findall_from None w"
      using IH [of u' "Some c"] ne hd' Cons by simp
    show ?thesis
    proof (cases "p = Some STX")
      case False
      then show ?thesis using Cons skip by simp
    next
      case True
      obtain q r where qr: "u' @ [ETX] = q @ ETX # r" "ETX \<notin> set q"
        "r = [] \<or> (\<exists>r'. r = r' @ [ETX] \<and> length r' < length u')"
        using split_first_ETX [of u'] by blast
      have full: "u' @ ETX # w = q @ ETX # (r @ w)"
        using qr(1) by (metis append.assoc append_Cons append_Nil)
      have lr1: "lazy_rest (u' @ ETX # w)
                 = (if NL \<in> set q then None else Some (q @ [ETX], r @ w))"
        unfolding full using qr(2) by (rule lazy_rest_split)
      have lr2: "lazy_rest (u' @ [ETX]) = (if NL \<in> set q then None else Some (q @ [ETX], r))"
        unfolding qr(1) using qr(2) by (rule lazy_rest_split)
      show ?thesis
      proof (cases "c = NL \<or> NL \<in> set q")
        case True
        then show ?thesis using Cons skip lr1 lr2 by auto
      next
        case False
        have tail: "findall_from (Some ETX) (r @ w)
                    = findall_from (Some ETX) r @ findall_from None w"
        proof (cases "r = []")
          case True
          then show ?thesis by (simp add: findall_from_ETX)
        next
          case False
          with qr(3) obtain r' where r': "r = r' @ [ETX]" "length r' < length u'" by blast
          have "has_empty_frame (r' @ [ETX]) \<Longrightarrow> has_empty_frame (u' @ [ETX])"
            unfolding qr(1) r'(1) [symmetric]
            using has_empty_frame_suffix [of r "q @ [ETX]"] by simp
          with ne have ne': "\<not> has_empty_frame (r' @ [ETX])" by blast
          have "findall_from (Some ETX) (r' @ ETX # w)
                = findall_from (Some ETX) (r' @ [ETX]) @ findall_from None w"
            using IH [of r' "Some ETX"] r'(2) ne' Cons by simp
          then show ?thesis using r'(1) by simp
        qed
        show ?thesis using Cons True False lr1 lr2 tail by simp
      qed
    qed
  qed
qed

subsection \<open>Facts about the buffer that is kept\<close>

lemma buffer_rest_split:
  "ETX \<in> set x \<Longrightarrow> \<exists>u. x = u @ ETX # buffer_rest x \<and> ETX \<notin> set (buffer_rest x)"
proof -
  assume a: "ETX \<in> set x"
  then obtain u v where uv: "x = u @ ETX # v" "ETX \<notin> set v"
    by (auto dest: split_list_last)
  have tw: "takeWhile (\<lambda>c. c \<noteq> ETX) (rev v @ ETX # rev u) = rev v"
    using uv(2) by (auto simp: takeWhile_tail)
  have "buffer_rest x = v"
    using a uv tw by (simp add: buffer_rest_def rindex_def)
  with uv have "x = u @ ETX # buffer_rest x \<and> ETX \<notin> set (buffer_rest x)" by simp
  then show ?thesis by (rule exI)
qed

lemma buffer_rest_no_ETX: "ETX \<notin> set (buffer_rest x)"
  using buffer_rest_split [of x] by (cases "ETX \<in> set x") (auto simp: buffer_rest_def)

lemma buffer_rest_suffix: "\<exists>u. x = u @ buffer_rest x"
proof (cases "ETX \<in> set x")
  case True
  then obtain u where "x = u @ ETX # buffer_rest x" using buffer_rest_split by blast
  then have "x = (u @ [ETX]) @ buffer_rest x" by simp
  then show ?thesis by blast
next
  case False
  then have "x = [] @ buffer_rest x" by (simp add: buffer_rest_def)
  then show ?thesis by blast
qed

text \<open>One pass over \<open>x\<close> and a later pass over what it kept, against one pass over all.\<close>

lemma findall_carry:
  assumes "\<not> has_empty_frame (x @ y)"
  shows "findall (x @ y) = findall x @ findall (buffer_rest x @ y)"
proof (cases "ETX \<in> set x")
  case False
  then show ?thesis by (simp add: findall_def buffer_rest_def findall_from_no_ETX)
next
  case True
  define v where "v = buffer_rest x"
  from True obtain u where u: "x = u @ ETX # v" and v: "ETX \<notin> set v"
    unfolding v_def using buffer_rest_split by blast
  have "has_empty_frame (u @ [ETX]) \<Longrightarrow> has_empty_frame (x @ y)"
    using has_empty_frame_prefix [of "u @ [ETX]" "v @ y"] by (simp add: u)
  with assms have ne: "\<not> has_empty_frame (u @ [ETX])" by blast
  have 1: "findall (x @ y) = findall_from None (u @ [ETX]) @ findall_from None (v @ y)"
    using findall_from_cut [OF ne, of None "v @ y"] by (simp add: findall_def u)
  have "findall x = findall_from None (u @ [ETX]) @ findall_from None v"
    using findall_from_cut [OF ne, of None v] by (simp add: findall_def u)
  then have 2: "findall x = findall_from None (u @ [ETX])"
    using v by (simp add: findall_from_no_ETX)
  show ?thesis using 1 2 by (simp add: findall_def v_def)
qed

lemma feed_whole:
  "ETX \<notin> set b \<Longrightarrow> \<not> has_empty_frame (b @ concat chunks) \<Longrightarrow>
   feed b chunks = payloads (b @ concat chunks)"
proof (induction chunks arbitrary: b)
  case Nil
  then show ?case by (simp add: payloads_def findall_def findall_from_no_ETX)
next
  case (Cons c cs)
  obtain u where u: "b @ c = u @ buffer_rest (b @ c)" using buffer_rest_suffix by blast
  have "b @ concat (c # cs) = u @ (buffer_rest (b @ c) @ concat cs)"
    using u by (metis append.assoc concat.simps(2))
  with Cons.prems(2) have ne: "\<not> has_empty_frame (buffer_rest (b @ c) @ concat cs)"
    using has_empty_frame_suffix by metis
  have IH: "feed (buffer_rest (b @ c)) cs = payloads (buffer_rest (b @ c) @ concat cs)"
    using Cons.IH [OF buffer_rest_no_ETX ne] .
  have "findall ((b @ c) @ concat cs)
        = findall (b @ c) @ findall (buffer_rest (b @ c) @ concat cs)"
    using findall_carry [of "b @ c" "concat cs"] Cons.prems(2) by simp
  then show ?case using IH by (simp add: payloads_def)
qed

subsection \<open>Chunked reads\<close>

text \<open>
  Claim C3 (chunking invariance), as the code has it. For every byte sequence in which
  no START is immediately followed by an END, and every way of splitting it into
  chunks, appending each chunk to the carried-over buffer and running the extractor
  yields, over all passes, the same payloads in the same order as one pass over the
  whole sequence.
\<close>

theorem chunking_invariance:
  "\<not> has_empty_frame (concat chunks) \<Longrightarrow> feed [] chunks = payloads (concat chunks)"
  using feed_whole [of "[]" chunks] by simp

theorem chunking_invariance_witness:
  "\<not> has_empty_frame (concat [''~ab'', ''c`x~'', ''de`~f''])
   \<and> feed [] [''~ab'', ''c`x~'', ''de`~f''] = payloads (concat [''~ab'', ''c`x~'', ''de`~f''])
   \<and> payloads (concat [''~ab'', ''c`x~'', ''de`~f'']) = [''abc'', ''de'']"
proof -
  have h: "\<not> has_empty_frame (concat [''~ab'', ''c`x~'', ''de`~f''])"
    by (simp add: STX_def ETX_def)
  have v: "payloads (concat [''~ab'', ''c`x~'', ''de`~f'']) = [''abc'', ''de'']"
    by (simp add: payloads_def findall_def STX_def ETX_def NL_def)
  show ?thesis using h v chunking_invariance [OF h] by simp
qed

text \<open>
  With an empty frame the invariance fails: read as \<^verbatim>\<open>~`\<close> then \<^verbatim>\<open>a`\<close>, the first
  pass finds no match and drops both bytes, and the second finds no START; read at
  once, the END behind the START is taken as the first payload byte and the payload
  \<^verbatim>\<open>`a\<close> is handed to the decoder.
\<close>

theorem chunking_invariance_fails_on_empty_frame:
  "feed [] [''~`'', ''a`''] = [] \<and> payloads (concat [''~`'', ''a`'']) = [''`a'']"
  by (simp add: payloads_def findall_def buffer_rest_def rindex_def STX_def ETX_def NL_def)

subsection \<open>One pass of the extractor\<close>

lemma lazy_rest_upto_END:
  "NL \<notin> set cs \<Longrightarrow>
   lazy_rest cs = (case upto_END cs of None \<Rightarrow> None | Some (m, r) \<Rightarrow> Some (m @ [ETX], r))"
  by (induction cs) (auto split: option.splits)

lemma upto_END_None: "upto_END cs = None \<Longrightarrow> ETX \<notin> set cs"
  by (induction cs) (auto split: if_splits option.splits)

lemma upto_END_Some: "upto_END cs = Some (m, r) \<Longrightarrow> cs = m @ ETX # r"
  by (induction cs arbitrary: m) (auto split: if_splits option.splits)

lemma findall_from_spans:
  "NL \<notin> set buf \<Longrightarrow> \<not> has_empty_frame (behind p @ buf) \<Longrightarrow>
   map butlast (findall_from p buf) = spec_spans (behind p @ buf)"
proof (induction p buf rule: findall_from.induct)
  case (1 prev)
  then show ?case by (simp add: behind_def)
next
  case (2 prev c cs)
  have nl: "NL \<notin> set cs" "c \<noteq> NL" using "2.prems"(1) by auto
  have ne: "\<not> has_empty_frame (c # cs)"
    using "2.prems"(2) has_empty_frame_suffix [of "c # cs" "behind prev"] by auto
  have ne': "\<not> has_empty_frame (behind (Some c) @ cs)"
    using ne by (cases cs) (auto simp: behind_def)
  have step: "spec_spans (c # cs) = spec_spans (behind (Some c) @ cs)"
    by (simp add: behind_def)
  show ?case
  proof (cases "prev = Some STX")
    case False
    then have "map butlast (findall_from (Some c) cs) = spec_spans (behind (Some c) @ cs)"
      using "2.IH"(3) nl(1) ne' by simp
    then show ?thesis using False step by (simp add: behind_def)
  next
    case True
    then have cE: "c \<noteq> ETX" using "2.prems"(2) by (simp add: behind_def)
    show ?thesis
    proof (cases "upto_END cs")
      case None
      then have "ETX \<notin> set cs" by (rule upto_END_None)
      then have "findall_from (Some c) cs = []" by (rule findall_from_no_ETX)
      then show ?thesis
        using True None nl cE by (simp add: behind_def lazy_rest_upto_END)
    next
      case (Some mr)
      obtain m r where mr: "mr = (m, r)" by (cases mr)
      have ma: "match_at (c # cs) = Some (c # m @ [ETX], r)"
        using Some mr nl by (simp add: lazy_rest_upto_END)
      have cs: "cs = m @ ETX # r" using Some mr upto_END_Some by simp
      have nlr: "NL \<notin> set r" using nl(1) cs by auto
      have "has_empty_frame r \<Longrightarrow> has_empty_frame (c # cs)"
        using has_empty_frame_suffix [of r "c # m @ [ETX]"] cs by simp
      with ne have ner: "\<not> has_empty_frame (behind (Some ETX) @ r)"
        by (auto simp: behind_def)
      have "map butlast (findall_from (Some ETX) r) = spec_spans (behind (Some ETX) @ r)"
        using "2.IH"(2) [OF True ma refl nlr ner] .
      then show ?thesis
        using True Some mr cE nl by (simp add: behind_def lazy_rest_upto_END)
    qed
  qed
qed

text \<open>
  Claim C2, as the code has it. For every byte buffer that holds no line feed and in
  which no START is immediately followed by an END, one pass of the extractor yields
  the interior bytes of all non-overlapping START...END spans, left to right (END
  excluded). For every byte buffer, the returned buffer is exactly the bytes after the
  last END; and a buffer without END is returned unchanged, with no payload.
\<close>

theorem extractor_spans:
  "(NL \<notin> set buf \<and> \<not> has_empty_frame buf \<longrightarrow> payloads buf = spec_spans buf)
   \<and> (ETX \<in> set buf \<longrightarrow>
        (\<exists>u. buf = u @ ETX # buffer_rest buf) \<and> ETX \<notin> set (buffer_rest buf))
   \<and> (ETX \<notin> set buf \<longrightarrow> payloads buf = [] \<and> buffer_rest buf = buf)"
proof (intro conjI impI)
  assume "NL \<notin> set buf \<and> \<not> has_empty_frame buf"
  then show "payloads buf = spec_spans buf"
    using findall_from_spans [of buf None] by (simp add: payloads_def findall_def behind_def)
next
  assume "ETX \<in> set buf"
  then show "\<exists>u. buf = u @ ETX # buffer_rest buf" using buffer_rest_split by blast
next
  show "ETX \<notin> set (buffer_rest buf)" by (rule buffer_rest_no_ETX)
next
  assume "ETX \<notin> set buf"
  then show "payloads buf = []" by (simp add: payloads_def findall_def findall_from_no_ETX)
next
  assume "ETX \<notin> set buf"
  then show "buffer_rest buf = buf" by (simp add: buffer_rest_def)
qed

theorem extractor_spans_witness:
  "(NL \<notin> set ''x~ab`~cd`e'' \<and> \<not> has_empty_frame ''x~ab`~cd`e'')
   \<and> ETX \<in> set ''x~ab`~cd`e''
   \<and> payloads ''x~ab`~cd`e'' = spec_spans ''x~ab`~cd`e''
   \<and> spec_spans ''x~ab`~cd`e'' = [''ab'', ''cd'']
   \<and> (\<exists>u. ''x~ab`~cd`e'' = u @ ETX # buffer_rest ''x~ab`~cd`e'')
   \<and> ETX \<notin> set ''~ab'' \<and> payloads ''~ab'' = [] \<and> buffer_rest ''~ab'' = ''~ab''"
proof -
  have h1: "NL \<notin> set ''x~ab`~cd`e'' \<and> \<not> has_empty_frame ''x~ab`~cd`e''"
    by (simp add: STX_def ETX_def NL_def)
  have h2: "ETX \<in> set ''x~ab`~cd`e''" by (simp add: ETX_def)
  have h3: "ETX \<notin> set ''~ab''" by (simp add: ETX_def)
  have v: "spec_spans ''x~ab`~cd`e'' = [''ab'', ''cd'']" by (simp add: STX_def ETX_def)
  show ?thesis
    using h1 h2 h3 v extractor_spans [of "''x~ab`~cd`e''"] extractor_spans [of "''~ab''"]
    by blast
qed

text \<open>
  The span claim fails on a frame with a line feed inside, which the matcher never
  matches, and on an empty frame, where the specification's span is empty and the
  matcher's payload starts with the END byte.
\<close>

theorem extractor_misses_spans:
  "payloads (''~a'' @ [NL] @ ''b`'') = []
   \<and> spec_spans (''~a'' @ [NL] @ ''b`'') = [''a'' @ [NL] @ ''b'']
   \<and> payloads ''~`a`'' = [''`a'']
   \<and> spec_spans ''~`a`'' = [[]]"
  by (simp add: payloads_def findall_def STX_def ETX_def NL_def)

subsection \<open>Empty frames\<close>





subsection \<open>Facts about the matrices\<close>

lemmas mat_defs =
  tab4_def entry_def np_dot_def det3_def skip_def minor_def cofactor_def det_def identity_def

lemma fourdof_to_matrix_eq:
  "fourdof_to_matrix (x, y, z) t =
     Mat4 (cos t, - sin t, 0, x) (sin t, cos t, 0, y) (0, 0, 1, z) (0, 0, 0, 1)"
  by (simp add: fourdof_to_matrix_def rotation_matrix_def Let_def)

lemma det_rigid:
  "det (Mat4 (c, - s, 0, x) (s, c, 0, y) (0, 0, 1, z) (0, 0, 0, 1)) = c * c + s * s"
  by (simp add: mat_defs algebra_simps)

lemma inv_rigid:
  assumes "c * c + s * s = 1"
  shows "np_linalg_inv (Mat4 (c, - s, 0, x) (s, c, 0, y) (0, 0, 1, z) (0, 0, 0, 1))
         = Inr (Mat4 (c, s, 0, - (c * x + s * y)) (- s, c, 0, s * x - c * y)
                     (0, 0, 1, - z) (0, 0, 0, 1))"
proof -
  have ss: "s * s = 1 - c * c" using assms by simp
  have ss': "s * (s * w) = w - c * (c * w)" for w
    using assms by algebra
  show ?thesis
    unfolding np_linalg_inv_def det_rigid assms
    by (simp add: mat_defs ss ss' algebra_simps)
qed

lemma rigid_inverse:
  assumes u: "c * c + s * s = 1"
  shows "np_dot (Mat4 (c, s, 0, - (c * x + s * y)) (- s, c, 0, s * x - c * y)
                      (0, 0, 1, - z) (0, 0, 0, 1))
                (Mat4 (c, - s, 0, x) (s, c, 0, y) (0, 0, 1, z) (0, 0, 0, 1)) = identity"
    and "np_dot (Mat4 (c, - s, 0, x) (s, c, 0, y) (0, 0, 1, z) (0, 0, 0, 1))
                (Mat4 (c, s, 0, - (c * x + s * y)) (- s, c, 0, s * x - c * y)
                      (0, 0, 1, - z) (0, 0, 0, 1)) = identity"
proof -
  have ss: "s * s = 1 - c * c" using u by simp
  have ss': "s * (s * w) = w - c * (c * w)" for w using u by algebra
  show "np_dot (Mat4 (c, s, 0, - (c * x + s * y)) (- s, c, 0, s * x - c * y)
                      (0, 0, 1, - z) (0, 0, 0, 1))
                (Mat4 (c, - s, 0, x) (s, c, 0, y) (0, 0, 1, z) (0, 0, 0, 1)) = identity"
    by (simp add: np_dot_def identity_def tab4_def entry_def ss ss' algebra_simps)
  show "np_dot (Mat4 (c, - s, 0, x) (s, c, 0, y) (0, 0, 1, z) (0, 0, 0, 1))
                (Mat4 (c, s, 0, - (c * x + s * y)) (- s, c, 0, s * x - c * y)
                      (0, 0, 1, - z) (0, 0, 0, 1)) = identity"
    by (simp add: np_dot_def identity_def tab4_def entry_def ss ss' algebra_simps)
qed

lemma det_identity: "det identity = 1"
  by (simp add: mat_defs)

lemma inv_identity: "np_linalg_inv identity = Inr identity"
  by (simp add: np_linalg_inv_def det_identity) (simp add: mat_defs)

text \<open>
  Whatever \<open>np_linalg_inv\<close> returns is the inverse: its product with the argument is
  the identity on either side.
\<close>

lemma mat4_cases16:
  obtains a0 a1 a2 a3 b0 b1 b2 b3 c0 c1 c2 c3 d0 d1 d2 d3 where
    "m = Mat4 (a0, a1, a2, a3) (b0, b1, b2, b3) (c0, c1, c2, c3) (d0, d1, d2, d3)"
proof (cases m)
  case (Mat4 r0 r1 r2 r3)
  then show ?thesis using that by (cases r0, cases r1, cases r2, cases r3) auto
qed

lemma np_linalg_inv_right:
  assumes "np_linalg_inv m = Inr m'"
  shows "np_dot m m' = identity"
proof -
  obtain a0 a1 a2 a3 b0 b1 b2 b3 c0 c1 c2 c3 d0 d1 d2 d3 where
    m: "m = Mat4 (a0, a1, a2, a3) (b0, b1, b2, b3) (c0, c1, c2, c3) (d0, d1, d2, d3)"
    by (rule mat4_cases16)
  have d: "det m \<noteq> 0" and m': "m' = tab4 (\<lambda>i j. cofactor m j i / det m)"
    using assms by (auto simp: np_linalg_inv_def split: if_splits)
  define D where "D = det m"
  have Dv: "D = entry m 0 0 * cofactor m 0 0 + entry m 0 1 * cofactor m 0 1
              + entry m 0 2 * cofactor m 0 2 + entry m 0 3 * cofactor m 0 3"
    by (simp add: D_def det_def)
  show ?thesis
    unfolding m' np_dot_def identity_def tab4_def
    using d unfolding D_def [symmetric]
    apply (simp add: entry_def m add_divide_distrib [symmetric] cofactor_def minor_def
             det3_def skip_def del: add_divide_distrib)
    apply (simp add: Dv entry_def m cofactor_def minor_def det3_def skip_def)
    apply (intro conjI)
                   apply algebra+
    done
qed

lemma np_linalg_inv_left:
  assumes "np_linalg_inv m = Inr m'"
  shows "np_dot m' m = identity"
proof -
  obtain a0 a1 a2 a3 b0 b1 b2 b3 c0 c1 c2 c3 d0 d1 d2 d3 where
    m: "m = Mat4 (a0, a1, a2, a3) (b0, b1, b2, b3) (c0, c1, c2, c3) (d0, d1, d2, d3)"
    by (rule mat4_cases16)
  have d: "det m \<noteq> 0" and m': "m' = tab4 (\<lambda>i j. cofactor m j i / det m)"
    using assms by (auto simp: np_linalg_inv_def split: if_splits)
  define D where "D = det m"
  have Dv: "D = entry m 0 0 * cofactor m 0 0 + entry m 0 1 * cofactor m 0 1
              + entry m 0 2 * cofactor m 0 2 + entry m 0 3 * cofactor m 0 3"
    by (simp add: D_def det_def)
  show ?thesis
    unfolding m' np_dot_def identity_def tab4_def
    using d unfolding D_def [symmetric]
    apply (simp add: entry_def m add_divide_distrib [symmetric] cofactor_def minor_def
             det3_def skip_def del: add_divide_distrib)
    apply (simp add: Dv entry_def m cofactor_def minor_def det3_def skip_def)
    apply (intro conjI)
                   apply algebra+
    done
qed

subsection \<open>One marker\<close>

lemmas dec_defs = dec_env_def dec_int_def dec_float_def strip_sign_def digit_val_def

lemmas extract_defs = payloads_def findall_def buffer_rest_def rindex_def STX_def ETX_def NL_def

lemma decode_marker_parsed:
  assumes "py_int e s0 = Some i" "py_float e s1 = Some deg"
    "np_float e s2 = Some x" "np_float e s3 = Some y" "np_float e s4 = Some z"
  shows "decode_marker e [s0, s1, s2, s3, s4] =
    Inr (i, Mat4 (cos (- radians deg), sin (- radians deg), 0,
                    - (cos (- radians deg) * (x * 0.01) + sin (- radians deg) * (y * 0.01)))
                 (- sin (- radians deg), cos (- radians deg), 0,
                    sin (- radians deg) * (x * 0.01) - cos (- radians deg) * (y * 0.01))
                 (0, 0, 1, - (- (z * 0.01)))
                 (0, 0, 0, 1))"
proof -
  have u: "cos (- radians deg) * cos (- radians deg)
           + sin (- radians deg) * sin (- radians deg) = 1"
    by (rule sin_cos_squared_add3)
  show ?thesis
    using assms inv_rigid [OF u]
    by (simp add: fourdof_to_matrix_eq Let_def del: cos_minus sin_minus)
qed

lemma decode_marker_inverse:
  assumes "py_int e s0 = Some i" "py_float e s1 = Some yaw_deg"
    "np_float e s2 = Some x_cm" "np_float e s3 = Some y_cm" "np_float e s4 = Some z_cm"
  shows "\<exists>M. decode_marker e [s0, s1, s2, s3, s4] = Inr (i, M)
     \<and> np_linalg_inv (homogeneous (- radians yaw_deg)
                        (0.01 * x_cm, 0.01 * y_cm, - (0.01 * z_cm))) = Inr M"
proof -
  let ?t = "- radians yaw_deg"
  have u: "cos ?t * cos ?t + sin ?t * sin ?t = 1" by (rule sin_cos_squared_add3)
  note dm = decode_marker_parsed [OF assms]
  show ?thesis
    apply (rule exI)
    apply (intro conjI)
     apply (rule dm)
    apply (simp only: homogeneous_def prod.case)
    apply (subst inv_rigid [OF u])
    apply (simp add: mult.commute)
    done
qed

lemma process_single_marker:
  assumes "2 \<le> length message" "py_int e [message ! 1] = Some 1"
    "py_split DELIM (drop 2 message) = [s0, s1, s2, s3, s4]"
    "decode_marker e [s0, s1, s2, s3, s4] = Inr (i, M)"
    "\<not> callback_global e" "callback_local e"
  shows "process_raw_pose e message = Inr [CallbackLocal [(IntId i, M)]]"
  using assms by (simp add: process_raw_pose_def run_callbacks_def)

text \<open>
  Claim C5. For every per-marker 5-tuple of fields whose conversions succeed, the
  transform stored for the marker id is the inverse of the homogeneous transform with
  rotation about z by \<open>- radians yaw_deg\<close> and translation
  \<open>(0.01 x_cm, 0.01 y_cm, - 0.01 z_cm)\<close>: it is what \<^verbatim>\<open>np.linalg.inv\<close> returns for that
  transform, and its product with that transform is the identity on either side.
\<close>

theorem marker_transform:
  assumes "py_int e s0 = Some i" "py_float e s1 = Some yaw_deg"
    "np_float e s2 = Some x_cm" "np_float e s3 = Some y_cm" "np_float e s4 = Some z_cm"
  shows "\<exists>M. decode_marker e [s0, s1, s2, s3, s4] = Inr (i, M)
     \<and> decode_markers e [[s0, s1, s2, s3, s4]] pose_local
         = Inr (AList.update (IntId i) M pose_local)
     \<and> np_linalg_inv (homogeneous (- radians yaw_deg)
                        (0.01 * x_cm, 0.01 * y_cm, - (0.01 * z_cm))) = Inr M
     \<and> np_dot M (homogeneous (- radians yaw_deg)
                   (0.01 * x_cm, 0.01 * y_cm, - (0.01 * z_cm))) = identity
     \<and> np_dot (homogeneous (- radians yaw_deg)
                 (0.01 * x_cm, 0.01 * y_cm, - (0.01 * z_cm))) M = identity"
proof -
  let ?t = "- radians yaw_deg"
  have u: "cos ?t * cos ?t + sin ?t * sin ?t = 1" by (rule sin_cos_squared_add3)
  note dm = decode_marker_parsed [OF assms]
  show ?thesis
    apply (rule exI)
    apply (intro conjI)
        apply (rule dm)
       apply (simp only: decode_markers.simps dm sum.case prod.case)
      apply (simp only: homogeneous_def prod.case)
      apply (subst inv_rigid [OF u])
      apply (simp add: mult.commute)
     apply (simp only: homogeneous_def prod.case)
    using rigid_inverse(1) [OF u, of "x_cm * 0.01" "y_cm * 0.01" "- (z_cm * 0.01)"]
     apply (simp add: mult.commute del: cos_minus sin_minus)
    apply (simp only: homogeneous_def prod.case)
    using rigid_inverse(2) [OF u, of "x_cm * 0.01" "y_cm * 0.01" "- (z_cm * 0.01)"]
    apply (simp add: mult.commute del: cos_minus sin_minus)
    done
qed

theorem marker_transform_witness:
  "py_int (dec_env Map.empty False True) ''48'' = Some 48
   \<and> py_float (dec_env Map.empty False True) ''-175.91'' = Some (- 175.91)
   \<and> np_float (dec_env Map.empty False True) ''+98.74'' = Some 98.74
   \<and> np_float (dec_env Map.empty False True) ''+7.10'' = Some 7.1
   \<and> np_float (dec_env Map.empty False True) ''182.39'' = Some 182.39
   \<and> (\<exists>M. decode_marker (dec_env Map.empty False True)
             [''48'', ''-175.91'', ''+98.74'', ''+7.10'', ''182.39''] = Inr (48, M)
        \<and> decode_markers (dec_env Map.empty False True)
             [[''48'', ''-175.91'', ''+98.74'', ''+7.10'', ''182.39'']] []
            = Inr (AList.update (IntId 48) M [])
        \<and> np_linalg_inv (homogeneous (- radians (- 175.91))
                           (0.01 * 98.74, 0.01 * 7.1, - (0.01 * 182.39))) = Inr M
        \<and> np_dot M (homogeneous (- radians (- 175.91))
                      (0.01 * 98.74, 0.01 * 7.1, - (0.01 * 182.39))) = identity
        \<and> np_dot (homogeneous (- radians (- 175.91))
                    (0.01 * 98.74, 0.01 * 7.1, - (0.01 * 182.39))) M = identity)"
proof -
  let ?e = "dec_env Map.empty False True"
  have h0: "py_int ?e ''48'' = Some 48" by (simp add: dec_defs)
  have h1: "py_float ?e ''-175.91'' = Some (- 175.91)" by (simp add: dec_defs)
  have h2: "np_float ?e ''+98.74'' = Some 98.74" by (simp add: dec_defs)
  have h3: "np_float ?e ''+7.10'' = Some 7.1" by (simp add: dec_defs)
  have h4: "np_float ?e ''182.39'' = Some 182.39" by (simp add: dec_defs)
  show ?thesis
    using h0 h1 h2 h3 h4 marker_transform [OF h0 h1 h2 h3 h4, of "[]"] by blast
qed

subsection \<open>The sample frame of the specification\<close>

text \<open>
  Claim C1, as the code has it. The payload \<^verbatim>\<open>^1|148|-175.91|+98.74|+7.10|182.39\<close>
  yields no observation: the count character is followed by a delimiter, so the text
  after it splits into six fields, the first one empty, and six is not \<open>5 * 1\<close>; the
  decoder logs the wrong data length and returns without calling a callback. Without
  that delimiter, \<^verbatim>\<open>^1148|-175.91|+98.74|+7.10|182.39\<close>, the decoder yields exactly one
  observation, for marker id 148, whose transform is the inverse of the homogeneous
  transform with yaw \<open>- radians (- 175.91)\<close> and translation
  \<open>(0.9874, 0.071, - 1.8239)\<close>: the fields after the id are yaw, x, y, z in this order.
\<close>

theorem spec_sample_not_decoded:
  "py_split DELIM (drop 2 ''^1|148|-175.91|+98.74|+7.10|182.39'')
     = ['''', ''148'', ''-175.91'', ''+98.74'', ''+7.10'', ''182.39'']
   \<and> process_raw_pose (dec_env mm cg cl) ''^1|148|-175.91|+98.74|+7.10|182.39''
     = Inr [LogIncorrectLength ''^1|148|-175.91|+98.74|+7.10|182.39'']
   \<and> (\<exists>M. process_raw_pose (dec_env mm False True) ''^1148|-175.91|+98.74|+7.10|182.39''
             = Inr [CallbackLocal [(IntId 148, M)]]
        \<and> np_linalg_inv (homogeneous (- radians (- 175.91)) (0.9874, 0.071, - 1.8239))
             = Inr M)"
proof -
  let ?e = "dec_env mm False True"
  have h0: "py_int ?e ''148'' = Some 148" by (simp add: dec_defs)
  have h1: "py_float ?e ''-175.91'' = Some (- 175.91)" by (simp add: dec_defs)
  have h2: "np_float ?e ''+98.74'' = Some 98.74" by (simp add: dec_defs)
  have h3: "np_float ?e ''+7.10'' = Some 7.1" by (simp add: dec_defs)
  have h4: "np_float ?e ''182.39'' = Some 182.39" by (simp add: dec_defs)
  have c: "py_int ?e [''^1148|-175.91|+98.74|+7.10|182.39'' ! 1] = Some 1"
    by (simp add: dec_defs)
  have l: "2 \<le> length ''^1148|-175.91|+98.74|+7.10|182.39''" by simp
  have cb: "\<not> callback_global ?e" "callback_local ?e" by (simp_all add: dec_env_def)
  have s: "py_split DELIM (drop 2 ''^1148|-175.91|+98.74|+7.10|182.39'')
           = [''148'', ''-175.91'', ''+98.74'', ''+7.10'', ''182.39'']"
    by (simp add: DELIM_def)
  have t: "homogeneous (- radians (- 175.91)) (0.01 * 98.74, 0.01 * 7.1, - (0.01 * 182.39))
           = homogeneous (- radians (- 175.91)) (0.9874, 0.071, - 1.8239)"
    by simp
  from decode_marker_inverse [OF h0 h1 h2 h3 h4]
  obtain M where M: "decode_marker ?e [''148'', ''-175.91'', ''+98.74'', ''+7.10'', ''182.39'']
                       = Inr (148, M)"
    "np_linalg_inv (homogeneous (- radians (- 175.91)) (0.9874, 0.071, - 1.8239)) = Inr M"
    unfolding t by blast
  have 1: "py_split DELIM (drop 2 ''^1|148|-175.91|+98.74|+7.10|182.39'')
     = ['''', ''148'', ''-175.91'', ''+98.74'', ''+7.10'', ''182.39'']"
    by (simp add: DELIM_def)
  have 2: "process_raw_pose (dec_env mm cg cl) ''^1|148|-175.91|+98.74|+7.10|182.39''
     = Inr [LogIncorrectLength ''^1|148|-175.91|+98.74|+7.10|182.39'']"
    by (simp add: process_raw_pose_def dec_defs DELIM_def)
  have 3: "process_raw_pose ?e ''^1148|-175.91|+98.74|+7.10|182.39''
        = Inr [CallbackLocal [(IntId 148, M)]]"
    by (rule process_single_marker [OF l c s M(1) cb])
  show ?thesis using 1 2 3 M(2) by blast
qed

text \<open>
  The sample frame wrapped in START and END and run through the read loop, with both
  callbacks set and marker 148 in the map: a log line and no callback.
\<close>

theorem spec_sample_yields_no_observation:
  "read_loop (dec_env [''148'' \<mapsto> identity] True True)
     [''~^1|148|-175.91|+98.74|+7.10|182.39`''] []
   = ([LogIncorrectLength ''^1|148|-175.91|+98.74|+7.10|182.39''], [], Stopped)"
  by (simp add: process_raw_pose_def dec_defs DELIM_def process_buffer_def extract_defs
        chunk_size_def)

subsection \<open>Frames the decoder does not decode\<close>

lemma reshape5_rows: "r \<in> set (reshape5 xs) \<Longrightarrow> length r = 5"
  by (induction xs rule: reshape5.induct) auto

lemma length5: "length r = 5 \<Longrightarrow> \<exists>s0 s1 s2 s3 s4. r = [s0, s1, s2, s3, s4]"
  by (auto simp: length_Suc_conv eval_nat_numeral)

lemma row_parses_length: "row_parses e r \<Longrightarrow> length r = 5"
  by (induction e r rule: row_parses.induct) auto

lemma decode_marker_fails:
  "length r = 5 \<Longrightarrow> \<not> row_parses e r \<Longrightarrow> decode_marker e r = Inl ValueError"
  by (auto dest!: length5 split: option.splits)

lemma decode_marker_succeeds:
  "row_parses e r \<Longrightarrow> \<exists>i M. decode_marker e r = Inr (i, M)"
proof -
  assume a: "row_parses e r"
  then have "length r = 5" by (rule row_parses_length)
  then obtain s0 s1 s2 s3 s4 where r: "r = [s0, s1, s2, s3, s4]" using length5 by blast
  with a obtain i d x y z where
    "py_int e s0 = Some i" "py_float e s1 = Some d"
    "np_float e s2 = Some x" "np_float e s3 = Some y" "np_float e s4 = Some z"
    by auto
  from decode_marker_parsed [OF this] r show ?thesis by blast
qed

lemma decode_markers_fail:
  "\<forall>r \<in> set rows. length r = 5 \<Longrightarrow> \<exists>r \<in> set rows. \<not> row_parses e r \<Longrightarrow>
   decode_markers e rows acc = Inl ValueError"
proof (induction rows arbitrary: acc)
  case Nil
  then show ?case by simp
next
  case (Cons r rows)
  show ?case
  proof (cases "row_parses e r")
    case False
    then show ?thesis using Cons.prems(1) by (simp add: decode_marker_fails)
  next
    case True
    then obtain i M where "decode_marker e r = Inr (i, M)"
      using decode_marker_succeeds by blast
    moreover have "\<exists>r' \<in> set rows. \<not> row_parses e r'" using Cons.prems(2) True by auto
    ultimately show ?thesis using Cons.IH Cons.prems(1) by simp
  qed
qed

lemma number_fails_raises:
  "number_fails e message \<Longrightarrow> process_raw_pose e message = Inl ValueError"
  by (auto simp: number_fails_def process_raw_pose_def Let_def reshape5_rows decode_markers_fail
           split: option.splits)

lemma length_mismatch_returns:
  "length_mismatch e message \<Longrightarrow> process_raw_pose e message = Inr [LogIncorrectLength message]"
  by (auto simp: length_mismatch_def process_raw_pose_def Let_def split: option.splits)

lemma process_frames_append:
  "process_frames e (a @ b) =
     (case process_frames e a of
        (evs, Some err) \<Rightarrow> (evs, Some err)
      | (evs, None) \<Rightarrow> (case process_frames e b of (evs', r) \<Rightarrow> (evs @ evs', r)))"
  by (induction a) (auto split: sum.splits prod.splits option.splits)

lemma read_loop_raise:
  "process_frames e (payloads (buf @ take chunk_size data)) = (evs, Some err) \<Longrightarrow>
   read_loop e (data # reads) buf
     = (evs @ [LogProcessingError err (buf @ take chunk_size data)], [], Broke err)"
  by (simp add: process_buffer_def Let_def)

lemma read_loop_continue:
  "process_frames e (payloads (buf @ take chunk_size data)) = (evs, None) \<Longrightarrow>
   read_loop e (data # reads) buf
     = (case read_loop e reads (buffer_rest (buf @ take chunk_size data)) of
          (evs', b, x) \<Rightarrow> (evs @ evs', b, x))"
  by (simp add: process_buffer_def Let_def)

text \<open>
  Claim C4, as the code has it. For every extracted payload whose marker count
  converts and whose field count differs from \<open>5 * N\<close>, decoding does not fail: the
  decoder logs the wrong data length and returns, nothing is decoded and no callback is
  called for that frame. The message buffer is not reset: the pass goes on with the
  frames that follow, and a pass that held only this frame keeps the bytes after the
  last END.
\<close>

theorem length_mismatch_is_logged:
  "length_mismatch e message \<Longrightarrow>
     process_raw_pose e message = Inr [LogIncorrectLength message]
     \<and> process_frames e (message # rest)
         = (LogIncorrectLength message # fst (process_frames e rest),
            snd (process_frames e rest))
     \<and> (payloads message_buffer = [message] \<longrightarrow>
          process_buffer e message_buffer
            = ([LogIncorrectLength message], Inr (buffer_rest message_buffer)))"
  by (simp add: length_mismatch_returns process_buffer_def split: prod.splits)

theorem length_mismatch_is_logged_witness:
  "length_mismatch (dec_env Map.empty True True) ''^2|1|2|3|4|5''
   \<and> process_raw_pose (dec_env Map.empty True True) ''^2|1|2|3|4|5''
       = Inr [LogIncorrectLength ''^2|1|2|3|4|5'']
   \<and> payloads ''~^2|1|2|3|4|5`~^1'' = [''^2|1|2|3|4|5'']
   \<and> process_buffer (dec_env Map.empty True True) ''~^2|1|2|3|4|5`~^1''
       = ([LogIncorrectLength ''^2|1|2|3|4|5''], Inr (buffer_rest ''~^2|1|2|3|4|5`~^1''))"
proof -
  have h: "length_mismatch (dec_env Map.empty True True) ''^2|1|2|3|4|5''"
    by (simp add: length_mismatch_def dec_defs DELIM_def)
  have p: "payloads ''~^2|1|2|3|4|5`~^1'' = [''^2|1|2|3|4|5'']"
    by (simp add: extract_defs)
  show ?thesis
    using h p length_mismatch_is_logged [OF h, of "[]" "''~^2|1|2|3|4|5`~^1''"] by blast
qed

text \<open>
  A frame with marker count 2 and six fields: no exception is raised, and the read
  loop goes on with the bytes behind the frame still in its buffer.
\<close>

theorem length_mismatch_keeps_buffer:
  "process_raw_pose (dec_env Map.empty True True) ''^2|1|2|3|4|5''
     = Inr [LogIncorrectLength ''^2|1|2|3|4|5'']
   \<and> read_loop (dec_env Map.empty True True) [''~^2|1|2|3|4|5`~^1''] []
     = ([LogIncorrectLength ''^2|1|2|3|4|5''], ''~^1'', Stopped)"
  by (simp add: process_raw_pose_def dec_defs DELIM_def process_buffer_def extract_defs
        chunk_size_def)

text \<open>
  Claim C10. A frame in which the marker-count character, a marker id or a numeric
  field fails to convert raises, and the pass of the read loop that extracted it ends
  the loop with an empty message buffer, later reads not being made (when the frames
  before it returned normally, it is this frame's \<open>ValueError\<close> that ends the loop). A
  frame whose field count differs from \<open>5 * N\<close> raises nothing and is only logged;
  when the other frames of the pass return normally too, the loop goes on to the next
  read with the bytes after the last END, the buffer not being reset.
\<close>

theorem decoder_errors_asymmetric:
  assumes "payloads (buf @ take chunk_size data) = before @ message # after"
  shows "(number_fails e message \<longrightarrow>
            process_raw_pose e message = Inl ValueError
            \<and> (\<exists>evs err. read_loop e (data # reads) buf = (evs, [], Broke err))
            \<and> (snd (process_frames e before) = None \<longrightarrow>
                 read_loop e (data # reads) buf
                   = (fst (process_frames e before)
                        @ [LogProcessingError ValueError (buf @ take chunk_size data)],
                      [], Broke ValueError)))
       \<and> (length_mismatch e message \<longrightarrow>
            process_raw_pose e message = Inr [LogIncorrectLength message]
            \<and> (snd (process_frames e before) = None \<and> snd (process_frames e after) = None
                 \<longrightarrow>
                 read_loop e (data # reads) buf
                   = (case read_loop e reads (buffer_rest (buf @ take chunk_size data)) of
                        (evs', b, x) \<Rightarrow>
                          (fst (process_frames e before) @ LogIncorrectLength message
                             # fst (process_frames e after) @ evs', b, x))))"
proof (intro conjI impI)
  assume nf: "number_fails e message"
  then show "process_raw_pose e message = Inl ValueError" by (rule number_fails_raises)
next
  assume nf: "number_fails e message"
  obtain evs0 r0 where b: "process_frames e before = (evs0, r0)"
    by (cases "process_frames e before")
  have "\<exists>evs err. process_frames e (before @ message # after) = (evs, Some err)"
    using b number_fails_raises [OF nf] by (cases r0) (simp_all add: process_frames_append)
  then obtain evs err where
    "process_frames e (payloads (buf @ take chunk_size data)) = (evs, Some err)"
    using assms by auto
  from read_loop_raise [OF this]
  show "\<exists>evs err. read_loop e (data # reads) buf = (evs, [], Broke err)" by blast
next
  assume nf: "number_fails e message" and "snd (process_frames e before) = None"
  then obtain evs0 where b: "process_frames e before = (evs0, None)"
    by (cases "process_frames e before") auto
  have "process_frames e (before @ message # after)
        = (fst (process_frames e before), Some ValueError)"
    using b number_fails_raises [OF nf] by (simp add: process_frames_append)
  then show "read_loop e (data # reads) buf
                = (fst (process_frames e before)
                     @ [LogProcessingError ValueError (buf @ take chunk_size data)],
                   [], Broke ValueError)"
    using assms read_loop_raise by simp
next
  assume lm: "length_mismatch e message"
  then show "process_raw_pose e message = Inr [LogIncorrectLength message]"
    by (rule length_mismatch_returns)
next
  assume lm: "length_mismatch e message"
    and ok: "snd (process_frames e before) = None \<and> snd (process_frames e after) = None"
  obtain evs0 where b: "process_frames e before = (evs0, None)"
    using ok by (cases "process_frames e before") auto
  obtain evs1 where a: "process_frames e after = (evs1, None)"
    using ok by (cases "process_frames e after") auto
  have "process_frames e (before @ message # after)
        = (fst (process_frames e before) @ LogIncorrectLength message
             # fst (process_frames e after), None)"
    using a b length_mismatch_returns [OF lm] by (simp add: process_frames_append)
  then show "read_loop e (data # reads) buf
                   = (case read_loop e reads (buffer_rest (buf @ take chunk_size data)) of
                        (evs', b, x) \<Rightarrow>
                          (fst (process_frames e before) @ LogIncorrectLength message
                             # fst (process_frames e after) @ evs', b, x))"
    using assms read_loop_continue [of e buf data _ reads] by simp
qed

theorem decoder_errors_asymmetric_witness:
  "payloads ([] @ take chunk_size ''~^1ab`~^x`~^1`'') = [''^1ab''] @ ''^x'' # [''^1'']
   \<and> process_frames (dec_env Map.empty True True) [''^1ab'']
       = ([LogIncorrectLength ''^1ab''], None)
   \<and> number_fails (dec_env Map.empty True True) ''^x''
   \<and> number_fails (dec_env Map.empty True True) ''^148|abc|1|2|3''
   \<and> read_loop (dec_env Map.empty True True) [''~^1ab`~^x`~^1`'', ''~^''] []
       = (fst (process_frames (dec_env Map.empty True True) [''^1ab''])
            @ [LogProcessingError ValueError ([] @ take chunk_size ''~^1ab`~^x`~^1`'')],
          [], Broke ValueError)
   \<and> payloads ([] @ take chunk_size ''~^2|1|2|3|4|5`~^1'') = [] @ ''^2|1|2|3|4|5'' # []
   \<and> length_mismatch (dec_env Map.empty True True) ''^2|1|2|3|4|5''
   \<and> read_loop (dec_env Map.empty True True) [''~^2|1|2|3|4|5`~^1'', ''ab`''] []
       = (case read_loop (dec_env Map.empty True True) [''ab`'']
                 (buffer_rest ([] @ take chunk_size ''~^2|1|2|3|4|5`~^1'')) of
            (evs', b, x) \<Rightarrow>
              (fst (process_frames (dec_env Map.empty True True) [])
                 @ LogIncorrectLength ''^2|1|2|3|4|5''
                 # fst (process_frames (dec_env Map.empty True True) []) @ evs', b, x))
   \<and> read_loop (dec_env Map.empty True True) [''ab`'']
         (buffer_rest ([] @ take chunk_size ''~^2|1|2|3|4|5`~^1''))
       = ([LogIncorrectLength ''^1ab''], [], Stopped)"
proof -
  let ?e = "dec_env Map.empty True True"
  have p1: "payloads ([] @ take chunk_size ''~^1ab`~^x`~^1`'') = [''^1ab''] @ ''^x'' # [''^1'']"
    by (simp add: extract_defs chunk_size_def)
  have b1: "process_frames ?e [''^1ab''] = ([LogIncorrectLength ''^1ab''], None)"
    by (simp add: process_raw_pose_def dec_defs DELIM_def)
  have s1: "snd (process_frames ?e [''^1ab'']) = None" by (simp only: b1 snd_conv)
  have n1: "number_fails ?e ''^x''"
    by (simp add: number_fails_def dec_defs)
  have n3: "number_fails ?e ''^148|abc|1|2|3''"
    by (simp add: number_fails_def dec_defs DELIM_def)
  have p2: "payloads ([] @ take chunk_size ''~^2|1|2|3|4|5`~^1'') = [] @ ''^2|1|2|3|4|5'' # []"
    by (simp add: extract_defs chunk_size_def)
  have s2: "snd (process_frames ?e []) = None" by simp
  have m2: "length_mismatch ?e ''^2|1|2|3|4|5''"
    by (simp add: length_mismatch_def dec_defs DELIM_def)
  have r2: "read_loop ?e [''ab`''] (buffer_rest ([] @ take chunk_size ''~^2|1|2|3|4|5`~^1''))
            = ([LogIncorrectLength ''^1ab''], [], Stopped)"
    by (simp add: process_raw_pose_def dec_defs DELIM_def process_buffer_def extract_defs
          chunk_size_def)
  show ?thesis
    using p1 b1 n1 n3 p2 m2 r2 s1 s2
      decoder_errors_asymmetric [OF p1, of "dec_env Map.empty True True" "[''~^'']"]
      decoder_errors_asymmetric [OF p2, of "dec_env Map.empty True True" "[''ab`'']"]
    by blast
qed

subsection \<open>Resolving observations\<close>

lemma last_observation_Cons:
  "last_observation ((k, p) # rest) s =
     (case last_observation rest s of
        Some p' \<Rightarrow> Some p'
      | None \<Rightarrow> if s = py_str k then Some p else None)"
  by (simp add: last_observation_def map_add_def split: option.splits)

lemma last_observation_None:
  "last_observation obs s = None \<longleftrightarrow> s \<notin> (py_str \<circ> fst) ` set obs"
  by (induction obs)
     (auto simp: last_observation_Cons last_observation_def split: option.splits)

lemma last_observation_in:
  "last_observation obs s = Some p \<Longrightarrow> \<exists>k. (k, p) \<in> set obs \<and> py_str k = s"
  by (induction obs)
     (auto simp: last_observation_Cons last_observation_def split: option.splits if_splits)

lemma last_observation_distinct:
  "distinct (map (py_str \<circ> fst) obs) \<Longrightarrow> (k, p) \<in> set obs \<Longrightarrow>
   last_observation obs (py_str k) = Some p"
proof (induction obs)
  case Nil
  then show ?case by simp
next
  case (Cons a obs)
  obtain k' p' where a: "a = (k', p')" by (cases a)
  show ?case
  proof (cases "(k, p) \<in> set obs")
    case True
    then show ?thesis using Cons a by (simp add: last_observation_Cons)
  next
    case False
    then have e: "k' = k" "p' = p" using Cons.prems(2) a by auto
    have "py_str k \<notin> (py_str \<circ> fst) ` set obs" using Cons.prems(1) a e by auto
    then have "last_observation obs (py_str k) = None" by (simp add: last_observation_None)
    then show ?thesis using a e by (simp add: last_observation_Cons)
  qed
qed

lemma local_to_global_loop_char:
  assumes "\<forall>(k, p) \<in> set obs. mm (py_str k) \<noteq> None \<longrightarrow> det p \<noteq> 0"
  shows "\<exists>gp unk. local_to_global_loop mm obs gp0 unk0 = Inr (gp, unk)
      \<and> unk = unk0 \<union> ((py_str \<circ> fst) ` set obs - dom mm)
      \<and> (distinct (map fst gp0) \<longrightarrow> distinct (map fst gp))
      \<and> (\<forall>s. map_of gp s =
            (case (mm s, last_observation obs s) of
               (Some M, Some p) \<Rightarrow>
                 (case np_linalg_inv p of Inr q \<Rightarrow> Some (np_dot M q) | Inl err \<Rightarrow> None)
             | _ \<Rightarrow> map_of gp0 s))"
  using assms
proof (induction obs arbitrary: gp0 unk0)
  case Nil
  then show ?case by (simp add: last_observation_def split: option.splits)
next
  case (Cons kp rest)
  obtain k p where kp: "kp = (k, p)" by (cases kp)
  have rest: "\<forall>(k, p) \<in> set rest. mm (py_str k) \<noteq> None \<longrightarrow> det p \<noteq> 0"
    using Cons.prems by auto
  show ?case
  proof (cases "mm (py_str k)")
    case None
    from Cons.IH [OF rest, of gp0 "insert (py_str k) unk0"]
    obtain gp unk where
      r: "local_to_global_loop mm rest gp0 (insert (py_str k) unk0) = Inr (gp, unk)"
      "unk = insert (py_str k) unk0 \<union> ((py_str \<circ> fst) ` set rest - dom mm)"
      "distinct (map fst gp0) \<longrightarrow> distinct (map fst gp)"
      "\<forall>s. map_of gp s =
            (case (mm s, last_observation rest s) of
               (Some M, Some p) \<Rightarrow>
                 (case np_linalg_inv p of Inr q \<Rightarrow> Some (np_dot M q) | Inl err \<Rightarrow> None)
             | _ \<Rightarrow> map_of gp0 s)" by (elim exE conjE)
    have "\<forall>s. map_of gp s =
            (case (mm s, last_observation (kp # rest) s) of
               (Some M, Some p) \<Rightarrow>
                 (case np_linalg_inv p of Inr q \<Rightarrow> Some (np_dot M q) | Inl err \<Rightarrow> None)
             | _ \<Rightarrow> map_of gp0 s)"
      using r(4) None kp by (auto simp: last_observation_Cons split: option.splits)
    then show ?thesis using r None kp by (auto simp: Let_def)
  next
    case (Some M)
    then have "det p \<noteq> 0" using Cons.prems kp by auto
    then obtain q where q: "np_linalg_inv p = Inr q" by (simp add: np_linalg_inv_def)
    let ?gp1 = "AList.update (py_str k) (np_dot M q) gp0"
    from Cons.IH [OF rest, of ?gp1 unk0]
    obtain gp unk where r: "local_to_global_loop mm rest ?gp1 unk0 = Inr (gp, unk)"
      "unk = unk0 \<union> ((py_str \<circ> fst) ` set rest - dom mm)"
      "distinct (map fst ?gp1) \<longrightarrow> distinct (map fst gp)"
      "\<forall>s. map_of gp s =
            (case (mm s, last_observation rest s) of
               (Some M, Some p) \<Rightarrow>
                 (case np_linalg_inv p of Inr q \<Rightarrow> Some (np_dot M q) | Inl err \<Rightarrow> None)
             | _ \<Rightarrow> map_of ?gp1 s)" by (elim exE conjE)
    have v: "\<forall>s. map_of gp s =
            (case (mm s, last_observation (kp # rest) s) of
               (Some M, Some p) \<Rightarrow>
                 (case np_linalg_inv p of Inr q \<Rightarrow> Some (np_dot M q) | Inl err \<Rightarrow> None)
             | _ \<Rightarrow> map_of gp0 s)"
      using r(4) Some kp q
      by (auto simp: last_observation_Cons update_conv' split: option.splits)
    have d: "distinct (map fst gp0) \<longrightarrow> distinct (map fst gp)"
      using r(3) by (simp add: distinct_update)
    have u: "unk = unk0 \<union> ((py_str \<circ> fst) ` set (kp # rest) - dom mm)"
      using r(2) Some kp by auto
    show ?thesis using r(1) v d u Some kp q by (simp add: Let_def)
  qed
qed

text \<open>
  Claim C6. For every marker map and every list of local observations whose
  transforms are invertible (as every homogeneous transform is), the resolver does not
  fail; the ids of the global poses are exactly the observed ids, in string form, that
  the map contains; the unknown ids are exactly the observed ids it does not contain;
  and the global pose of an id is the map's transform for it times the inverse of the
  observation with that id (the last such observation, should several have the same
  string form).
\<close>

theorem local_to_global_resolves:
  assumes "\<forall>(k, p) \<in> set local_poses. mm (py_str k) \<noteq> None \<longrightarrow> det p \<noteq> 0"
  shows "\<exists>global_poses unknown_ids.
      local_to_global mm local_poses = Inr (global_poses, unknown_ids)
      \<and> distinct (map fst global_poses)
      \<and> fst ` set global_poses = (py_str \<circ> fst) ` set local_poses \<inter> dom mm
      \<and> unknown_ids = (py_str \<circ> fst) ` set local_poses - dom mm
      \<and> (\<forall>s \<in> fst ` set global_poses. \<exists>M p q.
            mm s = Some M \<and> last_observation local_poses s = Some p
            \<and> np_linalg_inv p = Inr q \<and> map_of global_poses s = Some (np_dot M q))
      \<and> (distinct (map (py_str \<circ> fst) local_poses) \<longrightarrow>
           (\<forall>(k, p) \<in> set local_poses. last_observation local_poses (py_str k) = Some p))"
proof -
  have "\<exists>gp unk. local_to_global_loop mm local_poses [] {} = Inr (gp, unk)
      \<and> unk = (py_str \<circ> fst) ` set local_poses - dom mm
      \<and> distinct (map fst gp)
      \<and> (\<forall>s. map_of gp s =
            (case (mm s, last_observation local_poses s) of
               (Some M, Some p) \<Rightarrow>
                 (case np_linalg_inv p of Inr q \<Rightarrow> Some (np_dot M q) | Inl err \<Rightarrow> None)
             | _ \<Rightarrow> None))"
    using local_to_global_loop_char [OF assms, of "[]" "{}"]
    by (simp cong: option.case_cong)
  then obtain gp unk where r: "local_to_global_loop mm local_poses [] {} = Inr (gp, unk)"
    "unk = (py_str \<circ> fst) ` set local_poses - dom mm"
    "distinct (map fst gp)"
    "\<forall>s. map_of gp s =
            (case (mm s, last_observation local_poses s) of
               (Some M, Some p) \<Rightarrow>
                 (case np_linalg_inv p of Inr q \<Rightarrow> Some (np_dot M q) | Inl err \<Rightarrow> None)
             | _ \<Rightarrow> None)" by (elim exE conjE)
  have inv: "\<exists>q. np_linalg_inv p = Inr q"
    if a: "last_observation local_poses s = Some p" "mm s = Some M" for s p M
  proof -
    from a obtain k where "(k, p) \<in> set local_poses" "py_str k = s"
      using last_observation_in by blast
    then have "det p \<noteq> 0" using assms a(2) by auto
    then show ?thesis by (simp add: np_linalg_inv_def)
  qed
  have "dom (map_of gp) = (py_str \<circ> fst) ` set local_poses \<inter> dom mm"
  proof (rule set_eqI)
    fix s
    show "s \<in> dom (map_of gp) \<longleftrightarrow> s \<in> (py_str \<circ> fst) ` set local_poses \<inter> dom mm"
    proof (cases "mm s")
      case None
      then show ?thesis using r(4) by (auto simp: dom_def)
    next
      case M: (Some M)
      show ?thesis
      proof (cases "last_observation local_poses s")
        case None
        then show ?thesis
          using r(4) M last_observation_None [of local_poses s] by (auto simp: dom_def)
      next
        case (Some p)
        with M obtain q where "np_linalg_inv p = Inr q" using inv by blast
        then show ?thesis
          using r(4) Some M last_observation_None [of local_poses s]
          by (auto simp: dom_def)
      qed
    qed
  qed
  then have dom: "fst ` set gp = (py_str \<circ> fst) ` set local_poses \<inter> dom mm"
    by (simp add: dom_map_of_conv_image_fst)
  have vals: "\<forall>s \<in> fst ` set gp. \<exists>M p q.
            mm s = Some M \<and> last_observation local_poses s = Some p
            \<and> np_linalg_inv p = Inr q \<and> map_of gp s = Some (np_dot M q)"
  proof
    fix s assume "s \<in> fst ` set gp"
    then have s: "s \<in> (py_str \<circ> fst) ` set local_poses" "s \<in> dom mm" using dom by auto
    then obtain M where M: "mm s = Some M" by auto
    from s(1) obtain p where p: "last_observation local_poses s = Some p"
      using last_observation_None [of local_poses s] by auto
    from inv [OF p M] obtain q where q: "np_linalg_inv p = Inr q" by blast
    have "map_of gp s = Some (np_dot M q)" using r(4) M p q by simp
    with M p q show "\<exists>M p q.
            mm s = Some M \<and> last_observation local_poses s = Some p
            \<and> np_linalg_inv p = Inr q \<and> map_of gp s = Some (np_dot M q)" by blast
  qed
  have last: "distinct (map (py_str \<circ> fst) local_poses) \<longrightarrow>
           (\<forall>(k, p) \<in> set local_poses. last_observation local_poses (py_str k) = Some p)"
    using last_observation_distinct by auto
  have "local_to_global mm local_poses = Inr (gp, unk)"
    using r(1) by (simp add: local_to_global_def)
  with r(2,3) dom vals last show ?thesis by blast
qed

theorem local_to_global_resolves_witness:
  "det identity \<noteq> 0
   \<and> local_to_global [''148'' \<mapsto> identity] [(IntId 148, identity), (IntId 999, identity)]
       = Inr ([(''148'', np_dot identity identity)], {''999''})
   \<and> (\<exists>global_poses unknown_ids.
        local_to_global [''148'' \<mapsto> identity] [(IntId 148, identity), (IntId 999, identity)]
          = Inr (global_poses, unknown_ids)
        \<and> fst ` set global_poses
            = (py_str \<circ> fst) ` set [(IntId 148, identity), (IntId 999, identity)]
              \<inter> dom [''148'' \<mapsto> identity]
        \<and> unknown_ids
            = (py_str \<circ> fst) ` set [(IntId 148, identity), (IntId 999, identity)]
              - dom [''148'' \<mapsto> identity])"
proof -
  have h: "\<forall>(k, p) \<in> set [(IntId 148, identity), (IntId 999, identity)].
       [''148'' \<mapsto> identity] (py_str k) \<noteq> None \<longrightarrow> det p \<noteq> 0"
    by (simp add: det_identity)
  have s148: "py_str (IntId 148) = ''148''" by (simp add: nat_digits.simps)
  have s999: "py_str (IntId 999) = ''999''" by (simp add: nat_digits.simps)
  have v: "local_to_global [''148'' \<mapsto> identity] [(IntId 148, identity), (IntId 999, identity)]
       = Inr ([(''148'', np_dot identity identity)], {''999''})"
    unfolding local_to_global_def local_to_global_loop.simps s148 s999
    by (simp add: inv_identity)
  have d: "det identity \<noteq> 0" by (simp add: det_identity)
  show ?thesis
    using d v local_to_global_resolves [OF h] by blast
qed

subsection \<open>Acknowledgements\<close>

lemma singles_0 [simp]: "singles port i 0 = []"
  by (simp add: singles_def)

lemma singles_Suc_front: "singles port i (Suc k) = take 1 (port i) @ singles port (Suc i) k"
  by (simp add: singles_def upt_conv_Cons del: upt_Suc)

lemma scan_response_skip:
  "\<forall>j<k. \<not> tail_match expected (actual @ singles port i j) \<and> take 1 (port (i + j)) \<noteq> [] \<Longrightarrow>
   scan_response port command expected i actual
     = scan_response port command expected (i + k) (actual @ singles port i k)"
proof (induction k arbitrary: i actual)
  case 0
  then show ?case by simp
next
  case (Suc k)
  from Suc.prems have h0: "\<not> tail_match expected actual" "take 1 (port i) \<noteq> []"
    by force+
  have step: "scan_response port command expected i actual
        = scan_response port command expected (Suc i) (actual @ take 1 (port i))"
    using h0 by (subst scan_response.simps) (simp add: tail_match_def)
  have "\<forall>j<k. \<not> tail_match expected ((actual @ take 1 (port i)) @ singles port (Suc i) j)
            \<and> take 1 (port (Suc i + j)) \<noteq> []"
  proof (intro allI impI)
    fix j assume "j < k"
    then have "Suc j < Suc k" by simp
    with Suc.prems have "\<not> tail_match expected (actual @ singles port i (Suc j))
            \<and> take 1 (port (i + Suc j)) \<noteq> []" by blast
    then show "\<not> tail_match expected ((actual @ take 1 (port i)) @ singles port (Suc i) j)
            \<and> take 1 (port (Suc i + j)) \<noteq> []"
      by (simp add: singles_Suc_front)
  qed
  from Suc.IH [OF this] step show ?case by (simp add: singles_Suc_front)
qed

lemma scan_response_end:
  "scan_response port command expected i actual =
     (if tail_match expected actual then Some (None, i)
      else if take 1 (port i) \<noteq> []
      then scan_response port command expected (Suc i) (actual @ take 1 (port i))
      else Some (Some (UnexpectedResponse command actual expected), Suc i))"
  by (subst scan_response.simps) (simp add: tail_match_def Let_def)

lemma scan_response_Some:
  "scan_response port command expected i actual = Some r \<Longrightarrow>
   \<exists>k. (\<forall>j<k. \<not> tail_match expected (actual @ singles port i j) \<and> take 1 (port (i + j)) \<noteq> [])
      \<and> (if tail_match expected (actual @ singles port i k) then r = (None, i + k)
          else take 1 (port (i + k)) = []
               \<and> r = (Some (UnexpectedResponse command (actual @ singles port i k) expected),
                      Suc (i + k)))"
proof (induction port command expected i actual r
       rule: scan_response.raw_induct [rotated 1, consumes 1])
  case (1 scan port command expected i actual r)
  show ?case
  proof (cases "tail_match expected actual")
    case True
    then have "r = (None, i)" using 1(2) by (simp add: tail_match_def)
    with True show ?thesis by (intro exI [of _ 0]) simp
  next
    case nm: False
    show ?thesis
    proof (cases "take 1 (port i) = []")
      case True
      then have "r = (Some (UnexpectedResponse command actual expected), Suc i)"
        using 1(2) nm by (simp add: tail_match_def)
      with True nm show ?thesis by (intro exI [of _ 0]) simp
    next
      case False
      then have "scan port command expected (Suc i) (actual @ take 1 (port i)) = Some r"
        using 1(2) nm by (simp add: tail_match_def)
      from 1(1) [OF this] obtain k where
        k: "\<forall>j<k. \<not> tail_match expected ((actual @ take 1 (port i)) @ singles port (Suc i) j)
                  \<and> take 1 (port (Suc i + j)) \<noteq> []"
        "if tail_match expected ((actual @ take 1 (port i)) @ singles port (Suc i) k)
         then r = (None, Suc i + k)
         else take 1 (port (Suc i + k)) = []
              \<and> r = (Some (UnexpectedResponse command
                             ((actual @ take 1 (port i)) @ singles port (Suc i) k) expected),
                     Suc (Suc i + k))"
        by (elim exE conjE)
      have A: "\<forall>j<Suc k. \<not> tail_match expected (actual @ singles port i j)
                  \<and> take 1 (port (i + j)) \<noteq> []"
      proof (intro allI impI)
        fix j assume j: "j < Suc k"
        show "\<not> tail_match expected (actual @ singles port i j) \<and> take 1 (port (i + j)) \<noteq> []"
        proof (cases j)
          case 0
          then show ?thesis using nm False by simp
        next
          case (Suc j')
          then have "j' < k" using j by simp
          with k(1) show ?thesis using Suc by (simp add: singles_Suc_front)
        qed
      qed
      have B: "if tail_match expected (actual @ singles port i (Suc k))
          then r = (None, i + Suc k)
          else take 1 (port (i + Suc k)) = []
               \<and> r = (Some (UnexpectedResponse command (actual @ singles port i (Suc k))
                              expected), Suc (i + Suc k))"
        using k(2) by (auto simp: singles_Suc_front split: if_splits)
      from A B show ?thesis by (intro exI [of _ "Suc k"] conjI)
    qed
  qed
qed

lemma tail_match_noise: "tail_match (response_expected args) (noise @ response_expected args)"
  by (simp add: tail_match_def py_suffix_def response_expected_def)

lemma send_command_scan:
  "send_command port args st =
     (case scan_response port (command_str args) (response_expected args) (Suc 0)
             (accumulated port (length (response_expected args)) 0) of
        None \<Rightarrow> None
      | Some (r, n) \<Rightarrow> Some (r, st\<lparr>written := written st @ command_str args\<rparr>))"
  by (simp add: send_command_def accumulated_def Let_def)

text \<open>
  Claim C7, as the code has it. For every command and every sequence of port reads:
  the command succeeds exactly when, after the first read or after one of the one-byte
  reads that follow, the accumulated response ends with the acknowledgement frame
  START, RESPONSE marker, the same joined fields, END, every earlier one-byte read
  having returned its byte (noise before the frame is tolerated); it fails with
  \<open>UnexpectedResponse\<close>, carrying the command sent, the bytes accumulated and the frame
  expected, exactly when a one-byte read returns nothing while no accumulated response
  has matched so far. The first read may return nothing without failing the command.
\<close>

theorem command_channel:
  fixes port :: port and args :: "string list" and st st' :: driver and err :: py_error
  defines "E \<equiv> response_expected args"
  defines "acc \<equiv> accumulated port (length (response_expected args))"
  shows "((\<exists>st'. send_command port args st = Some (None, st'))
            \<longleftrightarrow> (\<exists>k. tail_match E (acc k)
                    \<and> (\<forall>j<k. \<not> tail_match E (acc j) \<and> take 1 (port (Suc j)) \<noteq> [])))
       \<and> (send_command port args st = Some (Some err, st')
            \<longleftrightarrow> (\<exists>k. (\<forall>j\<le>k. \<not> tail_match E (acc j))
                    \<and> (\<forall>j<k. take 1 (port (Suc j)) \<noteq> [])
                    \<and> take 1 (port (Suc k)) = []
                    \<and> err = UnexpectedResponse (command_str args) (acc k) E
                    \<and> st' = st\<lparr>written := written st @ command_str args\<rparr>))
       \<and> tail_match E (noise @ E)"
proof (intro conjI)
  let ?scan = "scan_response port (command_str args) E (Suc 0) (acc 0)"
  have sc: "send_command port args st =
     (case ?scan of None \<Rightarrow> None
      | Some (r, n) \<Rightarrow> Some (r, st\<lparr>written := written st @ command_str args\<rparr>))"
    unfolding E_def acc_def by (rule send_command_scan)
  have acc_k: "acc 0 @ singles port (Suc 0) k = acc k" for k
    by (simp add: acc_def accumulated_def)
  have skip: "?scan = scan_response port (command_str args) E (Suc 0 + k) (acc k)"
    if "\<forall>j<k. \<not> tail_match E (acc j) \<and> take 1 (port (Suc j)) \<noteq> []" for k
  proof -
    from that
    have h: "\<forall>j<k. \<not> tail_match E (acc 0 @ singles port (Suc 0) j) \<and> take 1 (port (Suc 0 + j)) \<noteq> []"
      by (simp add: acc_k)
    show ?thesis
      using scan_response_skip [OF h, of "command_str args"] by (simp only: acc_k)
  qed
  show "(\<exists>st'. send_command port args st = Some (None, st'))
            \<longleftrightarrow> (\<exists>k. tail_match E (acc k)
                    \<and> (\<forall>j<k. \<not> tail_match E (acc j) \<and> take 1 (port (Suc j)) \<noteq> []))"
  proof
    assume "\<exists>st'. send_command port args st = Some (None, st')"
    then obtain n where "?scan = Some (None, n)"
      unfolding sc by (auto split: option.splits)
    from scan_response_Some [OF this] obtain k where
      k: "\<forall>j<k. \<not> tail_match E (acc 0 @ singles port (Suc 0) j) \<and> take 1 (port (Suc 0 + j)) \<noteq> []"
      "if tail_match E (acc 0 @ singles port (Suc 0) k) then (None :: py_error option, n) = (None, Suc 0 + k)
       else take 1 (port (Suc 0 + k)) = []
            \<and> (None :: py_error option, n) = (Some (UnexpectedResponse (command_str args)
                                  (acc 0 @ singles port (Suc 0) k) E), Suc (Suc 0 + k))"
      by (elim exE conjE)
    have "tail_match E (acc k)" using k(2) by (auto simp: acc_k split: if_splits)
    moreover have "\<forall>j<k. \<not> tail_match E (acc j) \<and> take 1 (port (Suc j)) \<noteq> []"
      using k(1) by (simp add: acc_k)
    ultimately show "\<exists>k. tail_match E (acc k)
                    \<and> (\<forall>j<k. \<not> tail_match E (acc j) \<and> take 1 (port (Suc j)) \<noteq> [])"
      by (intro exI [of _ k] conjI)
  next
    assume "\<exists>k. tail_match E (acc k)
                    \<and> (\<forall>j<k. \<not> tail_match E (acc j) \<and> take 1 (port (Suc j)) \<noteq> [])"
    then obtain k where k: "tail_match E (acc k)"
      "\<forall>j<k. \<not> tail_match E (acc j) \<and> take 1 (port (Suc j)) \<noteq> []" by (elim exE conjE)
    have "?scan = Some (None, Suc 0 + k)"
      unfolding skip [OF k(2)] using k(1) by (subst scan_response_end) simp
    then show "\<exists>st'. send_command port args st = Some (None, st')"
      unfolding sc by simp
  qed
  show "send_command port args st = Some (Some err, st')
            \<longleftrightarrow> (\<exists>k. (\<forall>j\<le>k. \<not> tail_match E (acc j))
                    \<and> (\<forall>j<k. take 1 (port (Suc j)) \<noteq> [])
                    \<and> take 1 (port (Suc k)) = []
                    \<and> err = UnexpectedResponse (command_str args) (acc k) E
                    \<and> st' = st\<lparr>written := written st @ command_str args\<rparr>)"
  proof
    assume a: "send_command port args st = Some (Some err, st')"
    then obtain n where n: "?scan = Some (Some err, n)"
      and st': "st' = st\<lparr>written := written st @ command_str args\<rparr>"
      unfolding sc by (auto split: option.splits)
    from scan_response_Some [OF n] obtain k where
      k: "\<forall>j<k. \<not> tail_match E (acc 0 @ singles port (Suc 0) j) \<and> take 1 (port (Suc 0 + j)) \<noteq> []"
      "if tail_match E (acc 0 @ singles port (Suc 0) k) then (Some err, n) = (None, Suc 0 + k)
       else take 1 (port (Suc 0 + k)) = []
            \<and> (Some err, n) = (Some (UnexpectedResponse (command_str args)
                                  (acc 0 @ singles port (Suc 0) k) E), Suc (Suc 0 + k))"
      by (elim exE conjE)
    have nk: "\<not> tail_match E (acc k)" "take 1 (port (Suc k)) = []"
      "err = UnexpectedResponse (command_str args) (acc k) E"
      using k(2) by (auto simp: acc_k split: if_splits)
    have 1: "\<forall>j\<le>k. \<not> tail_match E (acc j)"
      using k(1) nk(1) by (auto simp: acc_k le_less)
    have 2: "\<forall>j<k. take 1 (port (Suc j)) \<noteq> []" using k(1) by simp
    from 1 2 nk(2,3) st'
    show "\<exists>k. (\<forall>j\<le>k. \<not> tail_match E (acc j))
                    \<and> (\<forall>j<k. take 1 (port (Suc j)) \<noteq> [])
                    \<and> take 1 (port (Suc k)) = []
                    \<and> err = UnexpectedResponse (command_str args) (acc k) E
                    \<and> st' = st\<lparr>written := written st @ command_str args\<rparr>"
      by (intro exI [of _ k] conjI)
  next
    assume "\<exists>k. (\<forall>j\<le>k. \<not> tail_match E (acc j))
                    \<and> (\<forall>j<k. take 1 (port (Suc j)) \<noteq> [])
                    \<and> take 1 (port (Suc k)) = []
                    \<and> err = UnexpectedResponse (command_str args) (acc k) E
                    \<and> st' = st\<lparr>written := written st @ command_str args\<rparr>"
    then obtain k where k: "\<forall>j\<le>k. \<not> tail_match E (acc j)"
      "\<forall>j<k. take 1 (port (Suc j)) \<noteq> []" "take 1 (port (Suc k)) = []"
      "err = UnexpectedResponse (command_str args) (acc k) E"
      "st' = st\<lparr>written := written st @ command_str args\<rparr>" by (elim exE conjE)
    have h: "\<forall>j<k. \<not> tail_match E (acc j) \<and> take 1 (port (Suc j)) \<noteq> []"
      using k(1,2) by simp
    have nk: "\<not> tail_match E (acc k)" using k(1) by simp
    have "?scan = Some (Some err, Suc (Suc 0 + k))"
      unfolding skip [OF h] using nk k(3,4) by (subst scan_response_end) simp
    then show "send_command port args st = Some (Some err, st')"
      unfolding sc using k(5) by simp
  qed
  show "tail_match E (noise @ E)" unfolding E_def by (rule tail_match_noise)
qed

lemmas command_defs = send_command_def command_str_def response_expected_def py_suffix_def
  port_of_def STX_def ETX_def DELIM_def CMD_def RESPONSE_def connected_driver_def

theorem command_channel_witness:
  "\<not> tail_match (response_expected [''X''])
        (accumulated (port_of [''xyz~'', ''!'', ''X'', ''`'']) (length (response_expected [''X''])) 0)
   \<and> take 1 (port_of [''xyz~'', ''!'', ''X'', ''`''] (Suc 0)) \<noteq> []
   \<and> \<not> tail_match (response_expected [''X''])
        (accumulated (port_of [''xyz~'', ''!'', ''X'', ''`'']) (length (response_expected [''X''])) 1)
   \<and> take 1 (port_of [''xyz~'', ''!'', ''X'', ''`''] (Suc 1)) \<noteq> []
   \<and> \<not> tail_match (response_expected [''X''])
        (accumulated (port_of [''xyz~'', ''!'', ''X'', ''`'']) (length (response_expected [''X''])) 2)
   \<and> take 1 (port_of [''xyz~'', ''!'', ''X'', ''`''] (Suc 2)) \<noteq> []
   \<and> tail_match (response_expected [''X''])
        (accumulated (port_of [''xyz~'', ''!'', ''X'', ''`'']) (length (response_expected [''X''])) 3)
   \<and> accumulated (port_of [''xyz~'', ''!'', ''X'', ''`'']) (length (response_expected [''X''])) 3
        = ''xyz'' @ response_expected [''X'']
   \<and> (\<exists>st'. send_command (port_of [''xyz~'', ''!'', ''X'', ''`'']) [''X''] connected_driver
               = Some (None, st'))
   \<and> \<not> tail_match (response_expected [''X''])
        (accumulated (port_of [''~!'']) (length (response_expected [''X''])) 0)
   \<and> take 1 (port_of [''~!''] (Suc 0)) = []
   \<and> send_command (port_of [''~!'']) [''X''] connected_driver
        = Some (Some (UnexpectedResponse (command_str [''X''])
                        (accumulated (port_of [''~!'']) (length (response_expected [''X''])) 0)
                        (response_expected [''X''])),
                connected_driver\<lparr>written := written connected_driver @ command_str [''X'']\<rparr>)"
proof -
  let ?E = "response_expected [''X'']"
  let ?W = "port_of [''xyz~'', ''!'', ''X'', ''`'']"
  let ?F = "port_of [''~!'']"
  have acc: "accumulated port n k = take n (port 0) @ singles port 1 k" for port n k
    by (simp add: accumulated_def)
  have s1: "singles port (Suc 0) (Suc 0) = take 1 (port (Suc 0))" for port
    by (simp add: singles_def)
  have s2: "singles port (Suc 0) 2 = take 1 (port (Suc 0)) @ take 1 (port (Suc (Suc 0)))" for port
    by (simp add: singles_def upt_rec numeral_2_eq_2)
  have s3: "singles port (Suc 0) 3 = take 1 (port (Suc 0)) @ take 1 (port (Suc (Suc 0)))
              @ take 1 (port (Suc (Suc (Suc 0))))" for port
    by (simp add: singles_def upt_rec numeral_3_eq_3)
  have w0: "\<not> tail_match ?E (accumulated ?W (length ?E) 0)"
    by (simp add: tail_match_def acc command_defs)
  have w1: "\<not> tail_match ?E (accumulated ?W (length ?E) 1)"
    by (simp add: tail_match_def acc s1 command_defs)
  have w2: "\<not> tail_match ?E (accumulated ?W (length ?E) 2)"
    by (simp add: tail_match_def acc s2 command_defs)
  have w3: "tail_match ?E (accumulated ?W (length ?E) 3)"
    by (simp add: tail_match_def acc s3 command_defs)
  have a3: "accumulated ?W (length ?E) 3 = ''xyz'' @ ?E"
    by (simp add: acc s3 command_defs)
  have r1: "take 1 (?W (Suc 0)) \<noteq> []" by (simp add: port_of_def)
  have r2: "take 1 (?W (Suc 1)) \<noteq> []" by (simp add: port_of_def)
  have r3: "take 1 (?W (Suc 2)) \<noteq> []" by (simp add: port_of_def)
  have all: "\<forall>j<3. \<not> tail_match ?E (accumulated ?W (length ?E) j) \<and> take 1 (?W (Suc j)) \<noteq> []"
  proof (intro allI impI)
    fix j :: nat assume "j < 3"
    then have "j = 0 \<or> j = 1 \<or> j = 2" by arith
    then show "\<not> tail_match ?E (accumulated ?W (length ?E) j) \<and> take 1 (?W (Suc j)) \<noteq> []"
      using w0 w1 w2 r1 r2 r3 by blast
  qed
  have ok: "\<exists>st'. send_command ?W [''X''] connected_driver = Some (None, st')"
    using command_channel [of ?W "[''X'']" connected_driver, THEN conjunct1] w3 all by blast
  have f0: "\<not> tail_match ?E (accumulated ?F (length ?E) 0)"
    by (simp add: tail_match_def acc command_defs)
  have t1: "take 1 (?F (Suc 0)) = []" by (simp add: port_of_def)
  have all0: "\<forall>j\<le>0. \<not> tail_match ?E (accumulated ?F (length ?E) j)" using f0 by simp
  have none: "\<forall>j<(0::nat). take 1 (?F (Suc j)) \<noteq> []" by simp
  have fail: "send_command ?F [''X''] connected_driver
        = Some (Some (UnexpectedResponse (command_str [''X''])
                        (accumulated ?F (length ?E) 0) ?E),
                connected_driver\<lparr>written := written connected_driver @ command_str [''X'']\<rparr>)"
    using command_channel [of ?F "[''X'']" connected_driver
        "UnexpectedResponse (command_str [''X'']) (accumulated ?F (length ?E) 0) ?E"
        "connected_driver\<lparr>written := written connected_driver @ command_str [''X'']\<rparr>",
        THEN conjunct2, THEN conjunct1]
      all0 none t1 by blast
  show ?thesis
    using w0 w1 w2 w3 a3 r1 r2 r3 ok f0 t1 fail by blast
qed

text \<open>
  The first read times out with nothing, no tail matching; the acknowledgement then
  arrives byte by byte, and the command succeeds.
\<close>

theorem first_read_timeout_is_tolerated:
  "take (length (response_expected [''CalcStop'']))
     (port_of ['''', ''~'', ''!'', ''C'', ''a'', ''l'', ''c'', ''S'', ''t'', ''o'', ''p'', ''`''] 0) = []
   \<and> \<not> tail_match (response_expected [''CalcStop'']) []
   \<and> send_command
         (port_of ['''', ''~'', ''!'', ''C'', ''a'', ''l'', ''c'', ''S'', ''t'', ''o'', ''p'', ''`''])
         [''CalcStop''] connected_driver
       = Some (None, connected_driver\<lparr>written := ''~#CalcStop`''\<rparr>)"
  by (simp add: scan_response.simps tail_match_def command_defs)

subsection \<open>Setting a parameter while streaming\<close>

lemma start_streaming_leaves_thread_unset:
  "start_streaming port st = Some (None, st') \<Longrightarrow>
     \<not> is_streaming st' \<and> readers_running st' = Suc (readers_running st)"
  by (auto simp: start_streaming_def start_def is_streaming_def send_command_def Let_def
           split: if_splits option.splits prod.splits)

text \<open>
  Claim C8 fails on the code. After \<^verbatim>\<open>start_streaming()\<close> has returned, a reader
  thread runs, but \<^verbatim>\<open>self._thread\<close> holds what \<^verbatim>\<open>Thread.start()\<close> returned, which is
  \<^verbatim>\<open>None\<close>; \<^verbatim>\<open>is_streaming\<close> is false, the assertion of \<^verbatim>\<open>set_parameter\<close> passes,
  and the command bytes are written to the port.
\<close>

theorem set_parameter_while_streaming:
  "start_streaming (port_of [''~!CalcStart`'']) connected_driver
     = Some (None, \<lparr>connection = True, thread_attr = None, stopped = False,
                    written = ''~#CalcStart`'', readers_running = 1\<rparr>)
   \<and> \<not> is_streaming \<lparr>connection = True, thread_attr = None, stopped = False,
                        written = ''~#CalcStart`'', readers_running = 1\<rparr>
   \<and> set_parameter (port_of [''~!MarkType|HLD1L`'']) ''MarkType'' ''HLD1L''
         \<lparr>connection = True, thread_attr = None, stopped = False,
          written = ''~#CalcStart`'', readers_running = 1\<rparr>
       = Some (None, \<lparr>connection = True, thread_attr = None, stopped = False,
                      written = ''~#CalcStart`~#MarkType|HLD1L`'', readers_running = 1\<rparr>)"
  by (simp add: start_streaming_def set_parameter_def is_connected_def is_streaming_def
        start_def scan_response.simps command_defs)

end
